theory Spec2Isabelle
  imports
    Complex_Main
    "HOL-Library.Multiset"
    "HOL-Library.Word"
    "HOL-Library.Char_ord"
    "HOL-Library.List_Lexorder"
    "HOL-Library.Product_Lexorder"
begin

unbundle bit_operations_syntax

section \<open>JavaScript numbers\<close>

text \<open>
  The engine of \<^verbatim>\<open>src/app.js\<close> computes on JavaScript numbers. A number is modelled as a
  finite value or one of the three special values. Finite arithmetic is exact (a real):
  rounding and the sign of zero are not modelled, and overflow to an infinity is modelled
  where the operands are unbounded, in \<open>calculateDistance\<close>. The special
  values follow IEEE 754 as ECMAScript applies it: every comparison with \<open>NaN\<close> is false,
  \<open>NaN\<close> is not strictly equal to itself, and \<open>Math.max\<close> and \<open>Math.min\<close> return \<open>NaN\<close> as
  soon as one argument is \<open>NaN\<close>.
\<close>

datatype jsnum = Fin real | PInf | NInf | NaN

text \<open>\<^verbatim>\<open>Number.isFinite\<close>.\<close>

fun isFinite :: "jsnum \<Rightarrow> bool" where
  "isFinite (Fin x) = True"
| "isFinite PInf = False"
| "isFinite NInf = False"
| "isFinite NaN = False"

text \<open>The operators \<^verbatim>\<open>===\<close> and \<^verbatim>\<open>!==\<close> on numbers.\<close>

fun jseq :: "jsnum \<Rightarrow> jsnum \<Rightarrow> bool" where
  "jseq (Fin x) (Fin y) = (x = y)"
| "jseq PInf PInf = True"
| "jseq NInf NInf = True"
| "jseq a b = False"

definition jsneq :: "jsnum \<Rightarrow> jsnum \<Rightarrow> bool" where
  "jsneq a b = (\<not> jseq a b)"

text \<open>The operators \<^verbatim>\<open><\<close>, \<^verbatim>\<open>>\<close>, \<^verbatim>\<open><=\<close> and \<^verbatim>\<open>>=\<close> on numbers.\<close>

fun jslt :: "jsnum \<Rightarrow> jsnum \<Rightarrow> bool" where
  "jslt NaN b = False"
| "jslt a NaN = False"
| "jslt (Fin x) (Fin y) = (x < y)"
| "jslt (Fin x) PInf = True"
| "jslt (Fin x) NInf = False"
| "jslt PInf b = False"
| "jslt NInf NInf = False"
| "jslt NInf b = True"

definition jsgt :: "jsnum \<Rightarrow> jsnum \<Rightarrow> bool" where
  "jsgt a b = jslt b a"

definition jsle :: "jsnum \<Rightarrow> jsnum \<Rightarrow> bool" where
  "jsle a b = (jslt a b \<or> jseq a b)"

definition jsge :: "jsnum \<Rightarrow> jsnum \<Rightarrow> bool" where
  "jsge a b = jsle b a"

text \<open>Addition, subtraction, multiplication and division.\<close>

fun jsadd :: "jsnum \<Rightarrow> jsnum \<Rightarrow> jsnum" where
  "jsadd NaN b = NaN"
| "jsadd a NaN = NaN"
| "jsadd (Fin x) (Fin y) = Fin (x + y)"
| "jsadd (Fin x) b = b"
| "jsadd a (Fin y) = a"
| "jsadd PInf PInf = PInf"
| "jsadd NInf NInf = NInf"
| "jsadd PInf NInf = NaN"
| "jsadd NInf PInf = NaN"

fun jsneg :: "jsnum \<Rightarrow> jsnum" where
  "jsneg (Fin x) = Fin (- x)"
| "jsneg PInf = NInf"
| "jsneg NInf = PInf"
| "jsneg NaN = NaN"

definition jssub :: "jsnum \<Rightarrow> jsnum \<Rightarrow> jsnum" where
  "jssub a b = jsadd a (jsneg b)"

text \<open>The sign of a number that is not \<open>NaN\<close>: \<open>-1\<close>, \<open>0\<close> or \<open>1\<close>.\<close>

fun jssgn :: "jsnum \<Rightarrow> real" where
  "jssgn (Fin x) = sgn x"
| "jssgn PInf = 1"
| "jssgn NInf = - 1"
| "jssgn NaN = 0"

definition infOfSign :: "real \<Rightarrow> jsnum" where
  "infOfSign s = (if s = 0 then NaN else if 0 < s then PInf else NInf)"

fun jsmul :: "jsnum \<Rightarrow> jsnum \<Rightarrow> jsnum" where
  "jsmul NaN b = NaN"
| "jsmul a NaN = NaN"
| "jsmul (Fin x) (Fin y) = Fin (x * y)"
| "jsmul a b = infOfSign (jssgn a * jssgn b)"

text \<open>
  A finite dividend over zero gives an infinity of the dividend's sign, and zero over zero
  gives \<open>NaN\<close>; the divisor zero is taken as \<open>+0\<close>. No division of the engine has a zero
  divisor under its shipped configuration.
\<close>

fun jsdiv :: "jsnum \<Rightarrow> jsnum \<Rightarrow> jsnum" where
  "jsdiv NaN b = NaN"
| "jsdiv a NaN = NaN"
| "jsdiv (Fin x) (Fin y) = (if y = 0 then infOfSign (sgn x) else Fin (x / y))"
| "jsdiv (Fin x) b = Fin 0"
| "jsdiv a (Fin y) = infOfSign (jssgn a * (if y < 0 then - 1 else 1))"
| "jsdiv a b = NaN"

text \<open>\<^verbatim>\<open>Math.max\<close> and \<^verbatim>\<open>Math.min\<close> of two numbers, and \<^verbatim>\<open>Math.exp\<close>.\<close>

definition jsmax :: "jsnum \<Rightarrow> jsnum \<Rightarrow> jsnum" where
  "jsmax a b = (if a = NaN \<or> b = NaN then NaN else if jslt a b then b else a)"

definition jsmin :: "jsnum \<Rightarrow> jsnum \<Rightarrow> jsnum" where
  "jsmin a b = (if a = NaN \<or> b = NaN then NaN else if jslt b a then b else a)"

fun jsexp :: "jsnum \<Rightarrow> jsnum" where
  "jsexp (Fin x) = Fin (exp x)"
| "jsexp PInf = PInf"
| "jsexp NInf = Fin 0"
| "jsexp NaN = NaN"

text \<open>The idiom \<^verbatim>\<open>x || 0\<close> on the result of \<^verbatim>\<open>Map.get\<close>: absent, \<open>0\<close> and \<open>NaN\<close> are falsy.\<close>

fun orZero :: "jsnum option \<Rightarrow> jsnum" where
  "orZero None = Fin 0"
| "orZero (Some NaN) = Fin 0"
| "orZero (Some v) = v"

text \<open>
  \<^verbatim>\<open>limit | 0\<close>: the operand goes through ToInt32 (\<open>NaN\<close> and the infinities become \<open>0\<close>, a
  finite value is truncated toward zero and reduced modulo \<open>2^32\<close>), and the result is
  read as a signed 32-bit integer.
\<close>

definition truncToZero :: "real \<Rightarrow> int" where
  "truncToZero x = (if 0 \<le> x then \<lfloor>x\<rfloor> else \<lceil>x\<rceil>)"

fun toInt32 :: "jsnum \<Rightarrow> 32 word" where
  "toInt32 (Fin x) = word_of_int (truncToZero x)"
| "toInt32 a = 0"

definition bitOrZero :: "jsnum \<Rightarrow> int" where
  "bitOrZero a = sint (toInt32 a OR 0)"

section \<open>Configuration\<close>

text \<open>
  \<^verbatim>\<open>CONFIG\<close> is a module constant that every function reads. The functions below take the
  configuration as an argument, and \<open>CONFIG\<close> is the value the source ships.
\<close>

record weights =
  w_pref :: real
  w_sim :: real
  w_geo :: real
  w_pop :: real
  w_cold :: real

record diversity =
  enabled :: bool
  alpha :: real
  perCategoryCap :: jsnum

record config =
  cfg_weights :: weights
  distanceDecayKm :: real
  hardGeoCutoffKm :: "jsnum option"
  cfg_diversity :: diversity

definition CONFIG :: config where
  "CONFIG = \<lparr> cfg_weights = \<lparr> w_pref = 0.35, w_sim = 0.30, w_geo = 0.20, w_pop = 0.15,
                                 w_cold = 0.10 \<rparr>,
              distanceDecayKm = 1000,
              hardGeoCutoffKm = None,
              cfg_diversity = \<lparr> enabled = True, alpha = 0.08, perCategoryCap = Fin 3 \<rparr> \<rparr>"

section \<open>Data model\<close>

text \<open>
  A field that may be missing, or hold a value that is not a number, is an option:
  \<open>None\<close> stands for "absent or not of type number". Fields the source reads through
  \<^verbatim>\<open>Array.isArray(x) ? x : []\<close> are lists, the empty list standing for a value that is not
  an array. A \<open>null\<close> entry of the event array is \<open>None\<close>. Identifiers and labels are
  strings of 8-bit characters; \<open><\<close> on them is the order of the source's \<^verbatim>\<open><\<close> on
  strings, by code unit with a proper prefix first.
\<close>

record location =
  lat :: "jsnum option"
  lng :: "jsnum option"

record event =
  e_id :: "string option"
  e_title :: string
  e_categories :: "string list"
  e_location :: "location option"
  e_popularity :: "jsnum option"

record user =
  u_id :: string
  u_location :: "location option"
  u_preferences :: "string list"
  u_attendedEvents :: "string list"

text \<open>Heap nodes: \<^verbatim>\<open>{ score, distance, popularity, id, event }\<close>.\<close>

record node =
  score :: jsnum
  distance :: jsnum
  popularity :: jsnum
  n_id :: string
  event :: event

datatype error = TypeError

section \<open>Math helpers\<close>

definition EARTH_RADIUS_KM :: real where
  "EARTH_RADIUS_KM = 6371"

text \<open>
  The coordinates of a location are any finite numbers, so the arithmetic of \<open>toRad\<close> and
  \<open>calculateDistance\<close> can leave the range of a double, and it is modelled with overflow:
  an exact result whose magnitude reaches \<open>2^1024 - 2^970\<close>, the point from which IEEE 754
  rounds to an infinity, becomes the infinity of its sign. Rounding inside the range is
  not modelled. The arithmetic of the scores works on signal values between \<open>0\<close> and \<open>1\<close>
  and on the configured weights, and stays exact.
\<close>

fun overflow :: "jsnum \<Rightarrow> jsnum" where
  "overflow (Fin x) =
     (if 2 ^ 1024 - 2 ^ 970 \<le> x then PInf
      else if x \<le> - (2 ^ 1024 - 2 ^ 970) then NInf
      else Fin x)"
| "overflow a = a"

definition dadd :: "jsnum \<Rightarrow> jsnum \<Rightarrow> jsnum" where
  "dadd a b = overflow (jsadd a b)"

definition dsub :: "jsnum \<Rightarrow> jsnum \<Rightarrow> jsnum" where
  "dsub a b = overflow (jssub a b)"

definition dmul :: "jsnum \<Rightarrow> jsnum \<Rightarrow> jsnum" where
  "dmul a b = overflow (jsmul a b)"

definition ddiv :: "jsnum \<Rightarrow> jsnum \<Rightarrow> jsnum" where
  "ddiv a b = overflow (jsdiv a b)"

text \<open>The operator \<^verbatim>\<open>x ** 2\<close>.\<close>

definition squared :: "jsnum \<Rightarrow> jsnum" where
  "squared a = dmul a a"

text \<open>
  \<^verbatim>\<open>Math.sin\<close>, \<^verbatim>\<open>Math.cos\<close> and \<^verbatim>\<open>Math.sqrt\<close>: the sine and the cosine of an infinity
  are \<open>NaN\<close>, and so is the square root of a negative number.
\<close>

fun jssin :: "jsnum \<Rightarrow> jsnum" where
  "jssin (Fin x) = Fin (sin x)"
| "jssin a = NaN"

fun jscos :: "jsnum \<Rightarrow> jsnum" where
  "jscos (Fin x) = Fin (cos x)"
| "jscos a = NaN"

fun jssqrt :: "jsnum \<Rightarrow> jsnum" where
  "jssqrt (Fin x) = (if x < 0 then NaN else Fin (sqrt x))"
| "jssqrt PInf = PInf"
| "jssqrt a = NaN"

text \<open>\<^verbatim>\<open>Math.PI\<close> is taken as \<open>\<pi>\<close>.\<close>

definition toRad :: "jsnum \<Rightarrow> jsnum" where
  "toRad deg = ddiv (dmul deg (Fin pi)) (Fin 180)"

text \<open>\<^verbatim>\<open>typeof x === 'number' && Number.isFinite(x)\<close>.\<close>

fun finiteNumber :: "jsnum option \<Rightarrow> bool" where
  "finiteNumber None = False"
| "finiteNumber (Some x) = isFinite x"

fun hasValidLocation :: "location option \<Rightarrow> bool" where
  "hasValidLocation None = False"
| "hasValidLocation (Some loc) = (finiteNumber (lat loc) \<and> finiteNumber (lng loc))"

text \<open>The value of a coordinate that \<open>hasValidLocation\<close> has accepted.\<close>

fun coord :: "jsnum option \<Rightarrow> real" where
  "coord (Some (Fin x)) = x"
| "coord a = 0"

definition latOf :: "location option \<Rightarrow> real" where
  "latOf p = (case p of None \<Rightarrow> 0 | Some loc \<Rightarrow> coord (lat loc))"

definition lngOf :: "location option \<Rightarrow> real" where
  "lngOf p = (case p of None \<Rightarrow> 0 | Some loc \<Rightarrow> coord (lng loc))"

text \<open>Jaccard similarity of two arrays of strings, through their sets.\<close>

definition jaccard :: "string list \<Rightarrow> string list \<Rightarrow> real" where
  "jaccard arrA arrB =
     (if arrA = [] \<or> arrB = [] then 0
      else
        let setA = remdups arrA;
            setB = remdups arrB;
            inter = length (filter (\<lambda>v. v \<in> set setB) setA);
            union = length setA + length setB - inter
        in if union = 0 then 0 else real inter / real union)"

text \<open>Distance to proximity by exponential decay; the second argument is \<open>d0\<close>.\<close>

definition proximityScoreFromKm :: "jsnum \<Rightarrow> real \<Rightarrow> jsnum" where
  "proximityScoreFromKm distanceKm d0 =
     (if \<not> isFinite distanceKm then Fin 0
      else
        let d = jsmax (Fin 0) distanceKm
        in jsexp (jsdiv (jsneg d) (Fin d0)))"

text \<open>
  \<^verbatim>\<open>Math.atan2\<close>, first on finite arguments and then on all numbers: \<open>NaN\<close> as soon as one
  argument is \<open>NaN\<close>, and the limits of the finite case at the infinities.
\<close>

definition atan2 :: "real \<Rightarrow> real \<Rightarrow> real" where
  "atan2 y x =
     (if 0 < x then arctan (y / x)
      else if x < 0 then (if 0 \<le> y then arctan (y / x) + pi else arctan (y / x) - pi)
      else if 0 < y then pi / 2
      else if y < 0 then - (pi / 2)
      else 0)"

fun jsatan2 :: "jsnum \<Rightarrow> jsnum \<Rightarrow> jsnum" where
  "jsatan2 NaN x = NaN"
| "jsatan2 y NaN = NaN"
| "jsatan2 (Fin y) (Fin x) = Fin (atan2 y x)"
| "jsatan2 (Fin y) PInf = Fin 0"
| "jsatan2 (Fin y) NInf = Fin (if 0 \<le> y then pi else - pi)"
| "jsatan2 PInf (Fin x) = Fin (pi / 2)"
| "jsatan2 PInf PInf = Fin (pi / 4)"
| "jsatan2 PInf NInf = Fin (3 * pi / 4)"
| "jsatan2 NInf (Fin x) = Fin (- (pi / 2))"
| "jsatan2 NInf PInf = Fin (- (pi / 4))"
| "jsatan2 NInf NInf = Fin (- (3 * pi / 4))"

definition calculateDistance :: "location option \<Rightarrow> location option \<Rightarrow> jsnum" where
  "calculateDistance point1 point2 =
     (if \<not> hasValidLocation point1 \<or> \<not> hasValidLocation point2 then PInf
      else
        let lat1 = toRad (Fin (latOf point1));
            lat2 = toRad (Fin (latOf point2));
            dLat = dsub lat2 lat1;
            dLng = toRad (dsub (Fin (lngOf point2)) (Fin (lngOf point1)));
            a = dadd (squared (jssin (ddiv dLat (Fin 2))))
                  (dmul (dmul (jscos lat1) (jscos lat2)) (squared (jssin (ddiv dLng (Fin 2)))));
            c = dmul (Fin 2) (jsatan2 (jssqrt a) (jssqrt (dsub (Fin 1) a)))
        in dmul (Fin EARTH_RADIUS_KM) c)"

section \<open>Tiny binary min-heap\<close>

text \<open>
  The heap is an array of nodes. Every index the source reads is inside the array: the
  sift loops guard their reads, and the root is replaced only in a heap that holds
  \<open>k \<ge> 1\<close> nodes.
\<close>

definition heapSwap :: "node list \<Rightarrow> nat \<Rightarrow> nat \<Rightarrow> node list" where
  "heapSwap h i j = (let t = h ! i in (h[i := h ! j])[j := t])"

text \<open>Comparator of the min-heap: "less" means worse.\<close>

definition heapLess :: "node \<Rightarrow> node \<Rightarrow> bool" where
  "heapLess a b =
     (if jsneq (score a) (score b) then jslt (score a) (score b)
      else if jsneq (distance a) (distance b) then jsgt (distance a) (distance b)
      else if jsneq (popularity a) (popularity b) then jslt (popularity a) (popularity b)
      else n_id a > n_id b)"

function heapSiftUp :: "node list \<Rightarrow> nat \<Rightarrow> node list" where
  "heapSiftUp h i =
     (if 0 < i then
        (let p = (i - 1) div 2
         in if \<not> heapLess (h ! i) (h ! p) then h else heapSiftUp (heapSwap h i p) p)
      else h)"
  by pat_completeness auto
termination
  by (relation "measure (\<lambda>(h, i). i)") auto

definition smallestOf :: "node list \<Rightarrow> nat \<Rightarrow> nat" where
  "smallestOf h i =
     (let n = length h;
          l = 2 * i + 1;
          r = 2 * i + 2;
          s = i;
          s = (if l < n \<and> heapLess (h ! l) (h ! s) then l else s);
          s = (if r < n \<and> heapLess (h ! r) (h ! s) then r else s)
      in s)"

lemma smallestOf_cases:
  "smallestOf h i = i \<or>
   (i < smallestOf h i \<and> smallestOf h i < length h)"
  by (auto simp: smallestOf_def Let_def)

lemma length_heapSwap: "length (heapSwap h i j) = length h"
  by (simp add: heapSwap_def Let_def)

function heapSiftDown :: "node list \<Rightarrow> nat \<Rightarrow> node list" where
  "heapSiftDown h i =
     (let s = smallestOf h i
      in if s = i then h else heapSiftDown (heapSwap h i s) s)"
  by pat_completeness auto
termination
proof (relation "measure (\<lambda>(h, i). length h - i)")
  show "wf (measure (\<lambda>(h, i). length h - i))"
    by simp
next
  fix h :: "node list" and i s :: nat
  assume "s = smallestOf h i" and "s \<noteq> i"
  then have "i < s \<and> s < length h"
    using smallestOf_cases [of h i] by auto
  then show "((heapSwap h i s, s), (h, i)) \<in> measure (\<lambda>(h, i). length h - i)"
    by (simp add: length_heapSwap) arith
qed

text \<open>The two loops unfold only on request.\<close>

declare heapSiftUp.simps [simp del]
declare heapSiftDown.simps [simp del]

definition heapPush :: "node list \<Rightarrow> node \<Rightarrow> node list" where
  "heapPush h nd = (let h' = h @ [nd] in heapSiftUp h' (length h' - 1))"

definition heapReplaceRoot :: "node list \<Rightarrow> node \<Rightarrow> node list" where
  "heapReplaceRoot h nd = heapSiftDown (h[0 := nd]) 0"

text \<open>"Better" comparator in final ranking order.\<close>

definition betterThan :: "node \<Rightarrow> node \<Rightarrow> bool" where
  "betterThan a b =
     (if jsneq (score a) (score b) then jsgt (score a) (score b)
      else if jsneq (distance a) (distance b) then jslt (distance a) (distance b)
      else if jsneq (popularity a) (popularity b) then jsgt (popularity a) (popularity b)
      else n_id a < n_id b)"

section \<open>Similarity counts\<close>

fun countSims :: "(string \<rightharpoonup> nat) \<Rightarrow> string list \<Rightarrow> (string \<rightharpoonup> nat)" where
  "countSims counts [] = counts"
| "countSims counts (sid # sims) =
     countSims (counts(sid \<mapsto> (case counts sid of None \<Rightarrow> 0 | Some n \<Rightarrow> n) + 1)) sims"

fun countAttended ::
  "(string \<rightharpoonup> string list) \<Rightarrow> (string \<rightharpoonup> nat) \<Rightarrow> string list \<Rightarrow> (string \<rightharpoonup> nat)" where
  "countAttended eventSimilarity counts [] = counts"
| "countAttended eventSimilarity counts (eid # rest) =
     (case eventSimilarity eid of
        None \<Rightarrow> countAttended eventSimilarity counts rest
      | Some sims \<Rightarrow> countAttended eventSimilarity (countSims counts sims) rest)"

text \<open>
  The similarity index is a map from event identifier to the array of similar
  identifiers; a \<open>null\<close> index and an entry that is not an array are absent keys.
\<close>

definition buildSimilarCounts ::
  "string list \<Rightarrow> (string \<rightharpoonup> string list) \<Rightarrow> (string \<rightharpoonup> nat)" where
  "buildSimilarCounts attended eventSimilarity =
     (if attended = [] then Map.empty else countAttended eventSimilarity Map.empty attended)"

section \<open>Category popularity prior\<close>

text \<open>
  The popularity of an event as the engine uses it, written twice in the source (in
  \<^verbatim>\<open>buildCategoryPopularityMap\<close> and in the scoring loop):
  \<^verbatim>\<open>typeof p === 'number' ? Math.max(0, Math.min(1, p)) : 0\<close>.
\<close>

definition clampPopularity :: "jsnum option \<Rightarrow> jsnum" where
  "clampPopularity p =
     (case p of None \<Rightarrow> Fin 0 | Some x \<Rightarrow> jsmax (Fin 0) (jsmin (Fin 1) x))"

definition popOf :: "event option \<Rightarrow> jsnum" where
  "popOf e = (case e of None \<Rightarrow> Fin 0 | Some ev \<Rightarrow> clampPopularity (e_popularity ev))"

definition catsOf :: "event option \<Rightarrow> string list" where
  "catsOf e = (case e of None \<Rightarrow> [] | Some ev \<Rightarrow> e_categories ev)"

fun tallyCats :: "(string \<rightharpoonup> jsnum) \<Rightarrow> jsnum \<Rightarrow> string list \<Rightarrow> (string \<rightharpoonup> jsnum)" where
  "tallyCats tally pop [] = tally"
| "tallyCats tally pop (c # cats) =
     tallyCats (tally(c \<mapsto> jsadd (orZero (tally c)) pop)) pop cats"

fun tallyEvents :: "(string \<rightharpoonup> jsnum) \<Rightarrow> event option list \<Rightarrow> (string \<rightharpoonup> jsnum)" where
  "tallyEvents tally [] = tally"
| "tallyEvents tally (e # es) = tallyEvents (tallyCats tally (popOf e) (catsOf e)) es"

definition buildCategoryPopularityMap :: "event option list \<Rightarrow> (string \<rightharpoonup> jsnum)" where
  "buildCategoryPopularityMap events = tallyEvents Map.empty events"

definition priorSumOf :: "(string \<rightharpoonup> jsnum) \<Rightarrow> string list \<Rightarrow> jsnum" where
  "priorSumOf popByCat cats = foldl (\<lambda>s c. jsadd s (orZero (popByCat c))) (Fin 0) cats"

fun maxPriorLoop :: "(string \<rightharpoonup> jsnum) \<Rightarrow> jsnum \<Rightarrow> event option list \<Rightarrow> jsnum" where
  "maxPriorLoop popByCat maxPrior [] = maxPrior"
| "maxPriorLoop popByCat maxPrior (e # es) =
     (let sum = priorSumOf popByCat (catsOf e)
      in maxPriorLoop popByCat (if jsgt sum maxPrior then sum else maxPrior) es)"

definition computeMaxPriorAcrossEvents ::
  "event option list \<Rightarrow> (string \<rightharpoonup> jsnum) \<Rightarrow> jsnum" where
  "computeMaxPriorAcrossEvents events popByCat = maxPriorLoop popByCat (Fin 0) events"

section \<open>Scoring one event\<close>

text \<open>
  The values \<^verbatim>\<open>getRecommendedEvents\<close> computes once for the user, before its loop, under
  the names the source gives them.
\<close>

definition prefs :: "user \<Rightarrow> string list" where
  "prefs user = u_preferences user"

definition attended :: "user \<Rightarrow> string list" where
  "attended user = u_attendedEvents user"

definition hasPrefs :: "user \<Rightarrow> bool" where
  "hasPrefs user = (0 < length (prefs user))"

definition hasHistory :: "user \<Rightarrow> bool" where
  "hasHistory user = (0 < length (attended user))"

definition hasGeo :: "user \<Rightarrow> bool" where
  "hasGeo user = hasValidLocation (u_location user)"

definition coldStart :: "user \<Rightarrow> bool" where
  "coldStart user = (\<not> hasPrefs user \<and> \<not> hasHistory user)"

definition similarCounts :: "user \<Rightarrow> (string \<rightharpoonup> string list) \<Rightarrow> (string \<rightharpoonup> nat)" where
  "similarCounts user eventSimilarity = buildSimilarCounts (attended user) eventSimilarity"

definition popByCat :: "user \<Rightarrow> event option list \<Rightarrow> (string \<rightharpoonup> jsnum) option" where
  "popByCat user events =
     (if coldStart user then Some (buildCategoryPopularityMap events) else None)"

definition maxPrior :: "user \<Rightarrow> event option list \<Rightarrow> jsnum" where
  "maxPrior user events =
     (if coldStart user
      then computeMaxPriorAcrossEvents events (buildCategoryPopularityMap events)
      else Fin 0)"

record activeSignals =
  a_pref :: bool
  a_sim :: bool
  a_geo :: bool
  a_pop :: bool
  a_cold :: bool

definition active :: "user \<Rightarrow> activeSignals" where
  "active user =
     \<lparr> a_pref = hasPrefs user, a_sim = hasHistory user, a_geo = hasGeo user, a_pop = True,
       a_cold = coldStart user \<rparr>"

text \<open>The loop over \<^verbatim>\<open>Object.keys(CONFIG.weights)\<close>, in the order of the keys.\<close>

definition activeWeightSum :: "config \<Rightarrow> user \<Rightarrow> real" where
  "activeWeightSum cfg user =
     (let w = cfg_weights cfg;
          a = active user;
          s = 0;
          s = (if a_pref a then s + w_pref w else s);
          s = (if a_sim a then s + w_sim w else s);
          s = (if a_geo a then s + w_geo w else s);
          s = (if a_pop a then s + w_pop w else s);
          s = (if a_cold a then s + w_cold w else s)
      in s)"

definition weightSum :: "config \<Rightarrow> user \<Rightarrow> real" where
  "weightSum cfg user =
     (let s = activeWeightSum cfg user in if s \<le> 0 then 1 else s)"

text \<open>The values the body of the loop computes for one event \<open>ev\<close>.\<close>

definition prefScore :: "user \<Rightarrow> event \<Rightarrow> real" where
  "prefScore user ev = (if hasPrefs user then jaccard (prefs user) (e_categories ev) else 0)"

definition simCount :: "user \<Rightarrow> (string \<rightharpoonup> string list) \<Rightarrow> string \<Rightarrow> nat" where
  "simCount user eventSimilarity i =
     (case similarCounts user eventSimilarity i of None \<Rightarrow> 0 | Some n \<Rightarrow> n)"

definition simScore :: "user \<Rightarrow> (string \<rightharpoonup> string list) \<Rightarrow> string \<Rightarrow> real" where
  "simScore user eventSimilarity i =
     (if hasHistory user
      then min 1 (real (simCount user eventSimilarity i) / real (length (attended user)))
      else 0)"

definition distanceKm :: "user \<Rightarrow> event \<Rightarrow> jsnum" where
  "distanceKm user ev =
     (if hasGeo user \<and> hasValidLocation (e_location ev)
      then calculateDistance (u_location user) (e_location ev)
      else PInf)"

text \<open>
  The hard cutoff: \<^verbatim>\<open>Number.isFinite(CONFIG.hardGeoCutoffKm) && distanceKm > cutoff\<close>,
  tested only where both locations are valid. The \<open>null\<close> cutoff is \<open>None\<close>.
\<close>

definition cutOff :: "config \<Rightarrow> user \<Rightarrow> event \<Rightarrow> bool" where
  "cutOff cfg user ev =
     (hasGeo user \<and> hasValidLocation (e_location ev) \<and>
      (case hardGeoCutoffKm cfg of
         None \<Rightarrow> False
       | Some c \<Rightarrow> isFinite c \<and> jsgt (distanceKm user ev) c))"

definition geoScore :: "config \<Rightarrow> user \<Rightarrow> event \<Rightarrow> jsnum" where
  "geoScore cfg user ev =
     (if a_geo (active user)
      then proximityScoreFromKm (distanceKm user ev) (distanceDecayKm cfg)
      else Fin 0)"

definition coldScore :: "user \<Rightarrow> event option list \<Rightarrow> event \<Rightarrow> jsnum" where
  "coldScore user events ev =
     (case popByCat user events of
        None \<Rightarrow> Fin 0
      | Some m \<Rightarrow>
          if coldStart user
          then (let priorSum = priorSumOf m (e_categories ev)
                in if jsgt (maxPrior user events) (Fin 0)
                   then jsdiv priorSum (maxPrior user events)
                   else Fin 0)
          else Fin 0)"

text \<open>The five summands of \<^verbatim>\<open>combined\<close>, one for each signal.\<close>

definition prefTerm :: "config \<Rightarrow> user \<Rightarrow> event \<Rightarrow> jsnum" where
  "prefTerm cfg user ev =
     (if a_pref (active user)
      then jsmul (Fin (w_pref (cfg_weights cfg))) (Fin (prefScore user ev))
      else Fin 0)"

definition simTerm :: "config \<Rightarrow> user \<Rightarrow> (string \<rightharpoonup> string list) \<Rightarrow> string \<Rightarrow> jsnum" where
  "simTerm cfg user eventSimilarity i =
     (if a_sim (active user)
      then jsmul (Fin (w_sim (cfg_weights cfg))) (Fin (simScore user eventSimilarity i))
      else Fin 0)"

definition geoTerm :: "config \<Rightarrow> user \<Rightarrow> event \<Rightarrow> jsnum" where
  "geoTerm cfg user ev =
     (if a_geo (active user)
      then jsmul (Fin (w_geo (cfg_weights cfg))) (geoScore cfg user ev)
      else Fin 0)"

definition popTerm :: "config \<Rightarrow> user \<Rightarrow> event \<Rightarrow> jsnum" where
  "popTerm cfg user ev =
     (if a_pop (active user)
      then jsmul (Fin (w_pop (cfg_weights cfg))) (clampPopularity (e_popularity ev))
      else Fin 0)"

definition coldTerm :: "config \<Rightarrow> user \<Rightarrow> event option list \<Rightarrow> event \<Rightarrow> jsnum" where
  "coldTerm cfg user events ev =
     (if a_cold (active user)
      then jsmul (Fin (w_cold (cfg_weights cfg))) (coldScore user events ev)
      else Fin 0)"

definition weightedSum ::
  "config \<Rightarrow> user \<Rightarrow> event option list \<Rightarrow> (string \<rightharpoonup> string list) \<Rightarrow> event \<Rightarrow> string \<Rightarrow> jsnum"
  where
  "weightedSum cfg user events eventSimilarity ev i =
     jsadd
       (jsadd
          (jsadd
             (jsadd (prefTerm cfg user ev) (simTerm cfg user eventSimilarity i))
             (geoTerm cfg user ev))
          (popTerm cfg user ev))
       (coldTerm cfg user events ev)"

definition combined ::
  "config \<Rightarrow> user \<Rightarrow> event option list \<Rightarrow> (string \<rightharpoonup> string list) \<Rightarrow> event \<Rightarrow> string \<Rightarrow> jsnum"
  where
  "combined cfg user events eventSimilarity ev i =
     jsdiv (weightedSum cfg user events eventSimilarity ev i) (Fin (weightSum cfg user))"

text \<open>
  One pass of the loop body up to the node: \<open>None\<close> where the source says
  \<^verbatim>\<open>continue\<close> (a \<open>null\<close> entry, a missing or empty identifier, an attended event, an event
  beyond the hard cutoff).
\<close>

definition scoreEvent ::
  "config \<Rightarrow> user \<Rightarrow> event option list \<Rightarrow> (string \<rightharpoonup> string list) \<Rightarrow> event option
   \<Rightarrow> node option" where
  "scoreEvent cfg user events eventSimilarity e =
     (case e of
        None \<Rightarrow> None
      | Some ev \<Rightarrow>
          (case e_id ev of
             None \<Rightarrow> None
           | Some i \<Rightarrow>
               if i = [] then None
               else if i \<in> set (attended user) then None
               else if cutOff cfg user ev then None
               else
                 Some \<lparr> score = combined cfg user events eventSimilarity ev i,
                        distance =
                          (if isFinite (distanceKm user ev) then distanceKm user ev else PInf),
                        popularity = clampPopularity (e_popularity ev),
                        n_id = i,
                        event = ev \<rparr>))"

section \<open>Top-k scan\<close>

text \<open>What the loop does with a node: push while the heap is short, else try the root.\<close>

definition offer :: "nat \<Rightarrow> node list \<Rightarrow> node \<Rightarrow> node list" where
  "offer k heap nd =
     (if length heap < k then heapPush heap nd
      else
        let root = heap ! 0
        in if betterThan nd root then heapReplaceRoot heap nd else heap)"

fun scoreAll ::
  "(event option \<Rightarrow> node option) \<Rightarrow> nat \<Rightarrow> node list \<Rightarrow> event option list \<Rightarrow> node list" where
  "scoreAll sc k heap [] = heap"
| "scoreAll sc k heap (e # es) =
     (case sc e of
        None \<Rightarrow> scoreAll sc k heap es
      | Some nd \<Rightarrow> scoreAll sc k (offer k heap nd) es)"

section \<open>Final sort\<close>

text \<open>
  The comparator handed to \<^verbatim>\<open>Array.prototype.sort\<close>. \<^verbatim>\<open>String.prototype.localeCompare\<close>
  depends on the host's collation and is the parameter \<open>lc\<close>.
\<close>

definition compareNodes :: "(string \<Rightarrow> string \<Rightarrow> int) \<Rightarrow> node \<Rightarrow> node \<Rightarrow> jsnum" where
  "compareNodes lc a b =
     (if jsneq (score b) (score a) then jssub (score b) (score a)
      else if jsneq (distance a) (distance b) then jssub (distance a) (distance b)
      else if jsneq (popularity b) (popularity a) then jssub (popularity b) (popularity a)
      else Fin (real_of_int (lc (n_id a) (n_id b))))"

text \<open>
  \<^verbatim>\<open>Array.prototype.sort\<close> is stable, and a comparator result that is \<open>NaN\<close> counts as
  \<open>0\<close>. For a consistent comparator every stable sort returns the list that insertion
  sort returns; for an inconsistent one the order is up to the engine, and the results
  below use of the sorted list only that it is a rearrangement of the heap.
\<close>

fun insertNode :: "(node \<Rightarrow> node \<Rightarrow> jsnum) \<Rightarrow> node \<Rightarrow> node list \<Rightarrow> node list" where
  "insertNode cmp x [] = [x]"
| "insertNode cmp x (y # ys) =
     (if jsgt (cmp x y) (Fin 0) then y # insertNode cmp x ys else x # y # ys)"

definition sortNodes :: "(node \<Rightarrow> node \<Rightarrow> jsnum) \<Rightarrow> node list \<Rightarrow> node list" where
  "sortNodes cmp xs = foldr (insertNode cmp) xs []"

section \<open>Diversity re-rank\<close>

definition countOf :: "(string \<rightharpoonup> nat) \<Rightarrow> string \<Rightarrow> nat" where
  "countOf catCounts c = (case catCounts c of None \<Rightarrow> 0 | Some n \<Rightarrow> n)"

definition penaltyFor :: "real \<Rightarrow> jsnum \<Rightarrow> (string \<rightharpoonup> nat) \<Rightarrow> event \<Rightarrow> real" where
  "penaltyFor al cap catCounts ev =
     (let cats = e_categories ev
      in if length cats = 0 then 0
         else
           let maxCount = foldl (\<lambda>m c. max m (countOf catCounts c)) 0 cats;
               capPenalty =
                 (if isFinite cap \<and> jsge (Fin (real maxCount)) cap then 0.5 else 0)
           in al * real maxCount + capPenalty)"

text \<open>
  The inner loop: the state is \<^verbatim>\<open>(bestIdx, bestVal)\<close>, and \<open>None\<close> is the index \<open>-1\<close>.
\<close>

definition bestStep ::
  "node list \<Rightarrow> real \<Rightarrow> jsnum \<Rightarrow> bool list \<Rightarrow> (string \<rightharpoonup> nat) \<Rightarrow> nat option \<times> jsnum \<Rightarrow> nat
   \<Rightarrow> nat option \<times> jsnum" where
  "bestStep nodes al cap used catCounts st i =
     (if used ! i then st
      else
        let nd = nodes ! i;
            base = score nd;
            pen = penaltyFor al cap catCounts (event nd);
            val = jssub base (Fin pen)
        in if jsgt val (snd st) then (Some i, val) else st)"

definition findBest ::
  "node list \<Rightarrow> real \<Rightarrow> jsnum \<Rightarrow> bool list \<Rightarrow> (string \<rightharpoonup> nat) \<Rightarrow> nat option" where
  "findBest nodes al cap used catCounts =
     fst (foldl (bestStep nodes al cap used catCounts) (None, NInf) [0..<length nodes])"

fun bumpCats :: "(string \<rightharpoonup> nat) \<Rightarrow> string list \<Rightarrow> (string \<rightharpoonup> nat)" where
  "bumpCats catCounts [] = catCounts"
| "bumpCats catCounts (c # cats) = bumpCats (catCounts(c \<mapsto> countOf catCounts c + 1)) cats"

text \<open>
  The outer loop, by the number of steps left. With \<open>bestIdx = -1\<close> the source reads
  \<^verbatim>\<open>nodes[-1]\<close>, which is \<open>undefined\<close>, and \<^verbatim>\<open>chosen.event\<close> throws a TypeError.
\<close>

fun rerankSteps ::
  "node list \<Rightarrow> real \<Rightarrow> jsnum \<Rightarrow> nat \<Rightarrow> bool list \<Rightarrow> node list \<Rightarrow> (string \<rightharpoonup> nat)
   \<Rightarrow> error + node list" where
  "rerankSteps nodes al cap 0 used out catCounts = Inr out"
| "rerankSteps nodes al cap (Suc m) used out catCounts =
     (case findBest nodes al cap used catCounts of
        None \<Rightarrow> Inl TypeError
      | Some bestIdx \<Rightarrow>
          (let chosen = nodes ! bestIdx
           in rerankSteps nodes al cap m (used[bestIdx := True]) (out @ [chosen])
                (bumpCats catCounts (e_categories (event chosen)))))"

definition rerankWithCategoryDiversity ::
  "node list \<Rightarrow> real \<Rightarrow> jsnum \<Rightarrow> error + node list" where
  "rerankWithCategoryDiversity nodes al cap =
     (let N = length nodes
      in rerankSteps nodes al cap N (replicate N False) [] Map.empty)"

section \<open>Recommendation\<close>

text \<open>
  The arguments \<open>lc\<close> and \<open>cfg\<close> are the host's \<^verbatim>\<open>localeCompare\<close> and the configuration;
  the limit \<open>None\<close> is an omitted argument. The types leave out a \<open>null\<close> user and an
  \<open>events\<close> value that is not an array, for which the source returns \<open>[]\<close> at once.
\<close>

definition kOf :: "jsnum \<Rightarrow> event option list \<Rightarrow> nat" where
  "kOf limit events = nat (min (max 0 (bitOrZero limit)) (int (length events)))"

definition getRecommendedEvents ::
  "(string \<Rightarrow> string \<Rightarrow> int) \<Rightarrow> config \<Rightarrow> user \<Rightarrow> event option list
   \<Rightarrow> (string \<rightharpoonup> string list) \<Rightarrow> jsnum option \<Rightarrow> error + event list" where
  "getRecommendedEvents lc cfg user events eventSimilarity limitArg =
     (let limit = (case limitArg of None \<Rightarrow> Fin 5 | Some l \<Rightarrow> l)
      in if length events = 0 \<or> jsle limit (Fin 0) then Inr []
         else
           let k = kOf limit events
           in if k = 0 then Inr []
              else
                let heap = scoreAll (scoreEvent cfg user events eventSimilarity) k [] events
                in if length heap = 0 then Inr []
                   else
                     let nodes = sortNodes (compareNodes lc) heap;
                         diversified =
                           (if enabled (cfg_diversity cfg) \<and> 1 < length nodes
                            then rerankWithCategoryDiversity nodes (alpha (cfg_diversity cfg))
                                   (perCategoryCap (cfg_diversity cfg))
                            else Inr nodes)
                     in (case diversified of
                           Inl err \<Rightarrow> Inl err
                         | Inr ns \<Rightarrow> Inr (map event ns)))"

section \<open>Notions of the statements\<close>

text \<open>A point with finite numeric latitude and longitude.\<close>

definition point :: "real \<Rightarrow> real \<Rightarrow> location option" where
  "point la lo = Some \<lparr> lat = Some (Fin la), lng = Some (Fin lo) \<rparr>"

text \<open>The scored nodes of the events the loop does not skip, in the order of the events.\<close>

definition candidates ::
  "config \<Rightarrow> user \<Rightarrow> event option list \<Rightarrow> (string \<rightharpoonup> string list) \<Rightarrow> node list" where
  "candidates cfg user events eventSimilarity =
     List.map_filter (scoreEvent cfg user events eventSimilarity) events"

text \<open>
  Claim C2 in its own words: an eligible candidate is an entry of the event list that
  carries an identifier (one that is not empty: the source tests \<^verbatim>\<open>!ev.id\<close>), whose
  identifier is not among the user's attended events, and that the hard geo cutoff does
  not exclude.
\<close>

definition eligible :: "config \<Rightarrow> user \<Rightarrow> event option \<Rightarrow> bool" where
  "eligible cfg user e =
     (case e of
        None \<Rightarrow> False
      | Some ev \<Rightarrow>
          (case e_id ev of
             None \<Rightarrow> False
           | Some i \<Rightarrow> i \<noteq> [] \<and> i \<notin> set (u_attendedEvents user) \<and> \<not> cutOff cfg user ev))"

definition eligibleCandidateCount :: "config \<Rightarrow> user \<Rightarrow> event option list \<Rightarrow> nat" where
  "eligibleCandidateCount cfg user events = length (filter (eligible cfg user) events)"

definition popularityNotNaN :: "event option \<Rightarrow> bool" where
  "popularityNotNaN e = (case e of None \<Rightarrow> True | Some ev \<Rightarrow> e_popularity ev \<noteq> Some NaN)"

text \<open>A number that is finite or \<open>NaN\<close>.\<close>

definition noInf :: "jsnum \<Rightarrow> bool" where
  "noInf a = (a \<noteq> PInf \<and> a \<noteq> NInf)"

text \<open>A score the re-rank can place: any number but \<open>NaN\<close> and \<open>-Infinity\<close>.\<close>

definition rankable :: "jsnum \<Rightarrow> bool" where
  "rankable a = (a \<noteq> NaN \<and> a \<noteq> NInf)"

text \<open>The indices the re-rank has not chosen yet.\<close>

definition unusedIdx :: "nat \<Rightarrow> bool list \<Rightarrow> nat set" where
  "unusedIdx N used = {i. i < N \<and> \<not> used ! i}"

text \<open>
  Claim C4 in its own words: score every eligible candidate, sort all of them by the total
  order (\<open>betterThan\<close>: score descending, then distance ascending, then popularity
  descending, then identifier ascending), and keep the first \<open>k\<close>.
\<close>

fun insertRanked :: "node \<Rightarrow> node list \<Rightarrow> node list" where
  "insertRanked x [] = [x]"
| "insertRanked x (y # ys) =
     (if betterThan x y then x # y # ys else y # insertRanked x ys)"

definition sortRanked :: "node list \<Rightarrow> node list" where
  "sortRanked xs = foldr insertRanked xs []"

definition fullSortTruncate :: "nat \<Rightarrow> node list \<Rightarrow> node list" where
  "fullSortTruncate k nodes = take k (sortRanked nodes)"

text \<open>
  A node whose three numeric keys are not \<open>NaN\<close>: on such nodes the two comparators
  describe one total order. The rank of a number embeds the numbers that are not \<open>NaN\<close>
  into a linear order, and the rank key of a node collects the ranks of its keys in the
  direction of "worse".
\<close>

fun rk :: "jsnum \<Rightarrow> int \<times> real" where
  "rk NInf = (- 1, 0)"
| "rk (Fin x) = (0, x)"
| "rk PInf = (1, 0)"
| "rk NaN = (2, 0)"

definition okNode :: "node \<Rightarrow> bool" where
  "okNode n = (score n \<noteq> NaN \<and> distance n \<noteq> NaN \<and> popularity n \<noteq> NaN)"

definition rankKey :: "node \<Rightarrow> (int \<times> real) \<times> (int \<times> real) \<times> (int \<times> real)" where
  "rankKey n = (rk (score n), rk (jsneg (distance n)), rk (popularity n))"

text \<open>
  The heap property of the array, as the parent of index \<open>i\<close> is \<open>(i - 1) div 2\<close>, and the
  property with one edge left open, on the way up and on the way down.
\<close>

definition par :: "nat \<Rightarrow> nat" where
  "par i = (i - 1) div 2"

definition okHeap :: "node list \<Rightarrow> bool" where
  "okHeap h = (\<forall>n\<in>set h. okNode n)"

definition isHeap :: "node list \<Rightarrow> bool" where
  "isHeap h = (\<forall>i. 0 < i \<and> i < length h \<longrightarrow> \<not> heapLess (h ! i) (h ! par i))"

definition heapExceptUp :: "node list \<Rightarrow> nat \<Rightarrow> bool" where
  "heapExceptUp h j =
     ((\<forall>i. 0 < i \<and> i < length h \<and> i \<noteq> j \<longrightarrow> \<not> heapLess (h ! i) (h ! par i)) \<and>
      (\<forall>i. 0 < i \<and> i < length h \<and> par i = j \<and> 0 < j \<longrightarrow> \<not> heapLess (h ! i) (h ! par j)))"

definition heapExceptDown :: "node list \<Rightarrow> nat \<Rightarrow> bool" where
  "heapExceptDown h j =
     ((\<forall>i. 0 < i \<and> i < length h \<and> par i \<noteq> j \<longrightarrow> \<not> heapLess (h ! i) (h ! par i)) \<and>
      (\<forall>i. 0 < i \<and> i < length h \<and> par i = j \<and> 0 < j \<longrightarrow> \<not> heapLess (h ! i) (h ! par j)))"

text \<open>
  \<open>H\<close> is a choice of the \<open>k\<close> best of \<open>M\<close>: it has \<open>min k (size M)\<close> members and none
  of the nodes left out is better than a member.
\<close>

definition topSel :: "nat \<Rightarrow> node multiset \<Rightarrow> node multiset \<Rightarrow> bool" where
  "topSel k M H =
     (H \<subseteq># M \<and> size H = min k (size M) \<and> (\<forall>x\<in>#H. \<forall>y\<in>#M - H. \<not> betterThan y x))"

text \<open>
  Claim C5 in its own words: one row for each signal, holding whether the signal is active
  for the user, its configured weight and its value for the event. The score is the sum
  of weight times value over the active rows, divided by the sum of the active weights,
  with the divisor \<open>1\<close> when that sum is \<open>0\<close>.
\<close>

definition signalRows ::
  "config \<Rightarrow> user \<Rightarrow> event option list \<Rightarrow> (string \<rightharpoonup> string list) \<Rightarrow> event \<Rightarrow> string
   \<Rightarrow> (bool \<times> real \<times> jsnum) list" where
  "signalRows cfg user events eventSimilarity ev i =
     [(u_preferences user \<noteq> [], w_pref (cfg_weights cfg), Fin (prefScore user ev)),
      (u_attendedEvents user \<noteq> [], w_sim (cfg_weights cfg),
         Fin (simScore user eventSimilarity i)),
      (hasValidLocation (u_location user), w_geo (cfg_weights cfg), geoScore cfg user ev),
      (True, w_pop (cfg_weights cfg), clampPopularity (e_popularity ev)),
      (u_preferences user = [] \<and> u_attendedEvents user = [], w_cold (cfg_weights cfg),
         coldScore user events ev)]"

definition activeRows :: "(bool \<times> real \<times> jsnum) list \<Rightarrow> (real \<times> jsnum) list" where
  "activeRows rows = map snd (filter fst rows)"

definition specCombined :: "(bool \<times> real \<times> jsnum) list \<Rightarrow> jsnum" where
  "specCombined rows =
     (let numerator = foldl jsadd (Fin 0) (map (\<lambda>(w, v). jsmul (Fin w) v) (activeRows rows));
          weights = sum_list (map fst (activeRows rows))
      in jsdiv numerator (Fin (if weights = 0 then 1 else weights)))"

section \<open>Sample data\<close>

text \<open>A small catalogue on which the statements below are run.\<close>

definition sampleUser :: user where
  "sampleUser =
     \<lparr> u_id = ''u1'', u_location = None, u_preferences = [''music''],
       u_attendedEvents = [''e3''] \<rparr>"

definition geoUser :: user where
  "geoUser =
     \<lparr> u_id = ''u2'', u_location = point 40.7128 (- 74.0060), u_preferences = [],
       u_attendedEvents = [] \<rparr>"

definition event1 :: event where
  "event1 =
     \<lparr> e_id = Some ''e1'', e_title = ''Event 1'', e_categories = [''music''],
       e_location = None, e_popularity = Some (Fin 0.9) \<rparr>"

definition event2 :: event where
  "event2 =
     \<lparr> e_id = Some ''e2'', e_title = ''Event 2'', e_categories = [''food''],
       e_location = None, e_popularity = Some (Fin 0.5) \<rparr>"

definition event3 :: event where
  "event3 =
     \<lparr> e_id = Some ''e3'', e_title = ''Event 3'', e_categories = [''music''],
       e_location = None, e_popularity = Some (Fin 0.7) \<rparr>"

definition nanEvent :: event where
  "nanEvent =
     \<lparr> e_id = Some ''e9'', e_title = ''Event 9'', e_categories = [''music''],
       e_location = None, e_popularity = Some NaN \<rparr>"

definition sampleSimilarity :: "string \<rightharpoonup> string list" where
  "sampleSimilarity = [''e3'' \<mapsto> [''e2'']]"

definition sampleEvents :: "event option list" where
  "sampleEvents = [Some event1, Some event2, Some event3]"

definition zeroConfig :: config where
  "zeroConfig =
     CONFIG \<lparr> cfg_weights := \<lparr> w_pref = 0, w_sim = 0, w_geo = 0, w_pop = 0, w_cold = 0 \<rparr> \<rparr>"

definition foodEvent :: event where
  "foodEvent =
     \<lparr> e_id = Some ''e4'', e_title = ''Event 4'', e_categories = [''food''],
       e_location = None, e_popularity = Some (Fin 0.4) \<rparr>"

definition rankedNodes :: "node list" where
  "rankedNodes =
     [\<lparr> score = Fin 0.60, distance = PInf, popularity = Fin 0.9, n_id = ''e1'', event = event1 \<rparr>,
      \<lparr> score = Fin 0.58, distance = PInf, popularity = Fin 0.7, n_id = ''e3'', event = event3 \<rparr>,
      \<lparr> score = Fin 0.55, distance = PInf, popularity = Fin 0.4, n_id = ''e4'',
        event = foodEvent \<rparr>]"

definition nanNodes :: "node list" where
  "nanNodes =
     [\<lparr> score = NaN, distance = PInf, popularity = NaN, n_id = ''e9'', event = nanEvent \<rparr>]"

text \<open>
  Two catalogues that hold \<open>nanEvent\<close> and \<open>event1\<close>, in either order, and the node of
  \<open>nanEvent\<close> for \<open>sampleUser\<close>.
\<close>

definition nanFirst :: "event option list" where
  "nanFirst = [Some nanEvent, Some event1]"

definition nanLast :: "event option list" where
  "nanLast = [Some event1, Some nanEvent]"

definition nanNode :: node where
  "nanNode = \<lparr> score = NaN, distance = PInf, popularity = NaN, n_id = ''e9'',
               event = nanEvent \<rparr>"

text \<open>The nodes of \<open>event1\<close> and \<open>event2\<close> for \<open>sampleUser\<close>.\<close>

definition node1 :: node where
  "node1 = \<lparr> score = Fin (97 / 160), distance = PInf, popularity = Fin 0.9, n_id = ''e1'',
             event = event1 \<rparr>"

definition node2 :: node where
  "node2 = \<lparr> score = Fin (15 / 32), distance = PInf, popularity = Fin 0.5, n_id = ''e2'',
             event = event2 \<rparr>"

section \<open>Distance\<close>

lemma cos_prod_sq:
  fixes p q :: real
  shows "cos (p - q) * cos (p + q) = (cos p)\<^sup>2 - (sin q)\<^sup>2"
proof -
  have "cos (p - q) * cos (p + q)
      = (cos p * cos q + sin p * sin q) * (cos p * cos q - sin p * sin q)"
    by (simp only: cos_add cos_diff)
  also have "\<dots> = (cos p)\<^sup>2 * (cos q)\<^sup>2 - (sin p)\<^sup>2 * (sin q)\<^sup>2"
    by algebra
  also have "\<dots> = (cos p)\<^sup>2 * (1 - (sin q)\<^sup>2) - (1 - (cos p)\<^sup>2) * (sin q)\<^sup>2"
    by (simp only: cos_squared_eq [of q] sin_squared_eq [of p])
  also have "\<dots> = (cos p)\<^sup>2 - (sin q)\<^sup>2"
    by algebra
  finally show ?thesis .
qed

lemma hav_identity:
  fixes a b :: real
  shows "(sin ((b - a) / 2))\<^sup>2 + cos a * cos b = (cos ((a + b) / 2))\<^sup>2"
proof -
  have "a = (a + b) / 2 - (b - a) / 2" "b = (a + b) / 2 + (b - a) / 2"
    by (simp_all add: field_simps)
  then have "cos a * cos b = cos ((a + b) / 2 - (b - a) / 2) * cos ((a + b) / 2 + (b - a) / 2)"
    by simp
  then show ?thesis
    by (simp only: cos_prod_sq)
qed

lemma hav_bounds:
  fixes a b x :: real
  shows "0 \<le> (sin ((b - a) / 2))\<^sup>2 + cos a * cos b * (sin x)\<^sup>2"
    and "(sin ((b - a) / 2))\<^sup>2 + cos a * cos b * (sin x)\<^sup>2 \<le> 1"
proof -
  define A where "A = (sin ((b - a) / 2))\<^sup>2"
  define B where "B = cos a * cos b"
  define s where "s = (sin x)\<^sup>2"
  have A: "0 \<le> A" "A \<le> 1"
    by (simp_all add: A_def abs_square_le_1)
  have "A + B = (cos ((a + b) / 2))\<^sup>2"
    unfolding A_def B_def by (rule hav_identity)
  then have AB: "0 \<le> A + B" "A + B \<le> 1"
    by (simp_all add: abs_square_le_1)
  have s: "0 \<le> s" "s \<le> 1"
    by (simp_all add: s_def abs_square_le_1)
  have eq: "A + B * s = (1 - s) * A + s * (A + B)"
    by algebra
  have "0 \<le> (1 - s) * A" "0 \<le> s * (A + B)"
    using A AB s by simp_all
  then have "0 \<le> A + B * s"
    unfolding eq by simp
  then show "0 \<le> (sin ((b - a) / 2))\<^sup>2 + cos a * cos b * (sin x)\<^sup>2"
    by (simp add: A_def B_def s_def)
  have "(1 - s) * A \<le> (1 - s) * 1"
    using A s by (intro mult_left_mono) simp_all
  moreover have "s * (A + B) \<le> s * 1"
    using AB s by (intro mult_left_mono) simp_all
  ultimately
  have "A + B * s \<le> 1"
    unfolding eq by simp
  then show "(sin ((b - a) / 2))\<^sup>2 + cos a * cos b * (sin x)\<^sup>2 \<le> 1"
    by (simp add: A_def B_def s_def)
qed

lemma atan2_range:
  assumes "0 \<le> y" and "0 \<le> x"
  shows "0 \<le> atan2 y x" and "atan2 y x \<le> pi / 2"
proof -
  have "arctan (y / x) < pi / 2"
    by (rule arctan_ubound)
  then show "0 \<le> atan2 y x" "atan2 y x \<le> pi / 2"
    using assms by (auto simp: atan2_def)
qed

lemma hasValidLocation_iff: "hasValidLocation p \<longleftrightarrow> (\<exists>la lo. p = point la lo)"
proof (cases p)
  case None
  then show ?thesis by (simp add: point_def)
next
  case (Some loc)
  show ?thesis
  proof
    assume "hasValidLocation p"
    then obtain a b where "lat loc = Some (Fin a)" "lng loc = Some (Fin b)"
      using Some
      by (cases "lat loc"; cases "lng loc"; simp)
         (metis isFinite.elims(2))
    then have "loc = \<lparr> lat = Some (Fin a), lng = Some (Fin b) \<rparr>"
      by simp
    then show "\<exists>la lo. p = point la lo"
      using Some by (auto simp: point_def)
  next
    assume "\<exists>la lo. p = point la lo"
    then show "hasValidLocation p"
      by (auto simp: point_def)
  qed
qed

lemma point_simps [simp]:
  "hasValidLocation (point la lo)" "latOf (point la lo) = la" "lngOf (point la lo) = lo"
  by (simp_all add: point_def latOf_def lngOf_def)

text \<open>Within the range of a double the arithmetic is the exact one.\<close>

lemma overflow_small:
  assumes "\<bar>x\<bar> \<le> 10 ^ 301"
  shows "overflow (Fin x) = Fin x"
proof -
  have "(10::real) ^ 301 < 2 ^ 1024 - 2 ^ 970"
    by simp
  then have "x < 2 ^ 1024 - 2 ^ 970" "- (2 ^ 1024 - 2 ^ 970) < x"
    using assms by linarith+
  then show ?thesis
    by (simp del: power_numeral)
qed

lemma toRad_small:
  assumes "\<bar>x\<bar> \<le> 2 * 10 ^ 300"
  shows "toRad (Fin x) = Fin (x * pi / 180)"
proof -
  have "\<bar>x * pi\<bar> \<le> (2 * 10 ^ 300) * 4"
    unfolding abs_mult using assms pi_less_4 by (intro mult_mono) simp_all
  then have 1: "\<bar>x * pi\<bar> \<le> 10 ^ 301"
    by simp
  then have "\<bar>x * pi / 180\<bar> \<le> 10 ^ 301"
    by simp
  then show ?thesis
    using 1 by (simp add: toRad_def dmul_def ddiv_def overflow_small del: overflow.simps)
qed

lemma toRad_bound:
  assumes "\<bar>x\<bar> \<le> 2 * 10 ^ 300"
  shows "\<bar>x * pi / 180\<bar> \<le> 10 ^ 300"
proof -
  have "\<bar>x * pi\<bar> \<le> (2 * 10 ^ 300) * 4"
    unfolding abs_mult using assms pi_less_4 by (intro mult_mono) simp_all
  then show ?thesis
    by simp
qed

text \<open>
  The value of \<open>calculateDistance\<close> on coordinates of magnitude up to \<open>10^300\<close>: no
  operation overflows, and the result is the haversine distance over the reals.
\<close>

lemma calculateDistance_small:
  assumes "\<bar>la1\<bar> \<le> 10 ^ 300" "\<bar>lo1\<bar> \<le> 10 ^ 300" "\<bar>la2\<bar> \<le> 10 ^ 300" "\<bar>lo2\<bar> \<le> 10 ^ 300"
  defines "r1 \<equiv> la1 * pi / 180" and "r2 \<equiv> la2 * pi / 180"
    and "dl \<equiv> (lo2 - lo1) * pi / 180"
  defines "a \<equiv> (sin ((r2 - r1) / 2))\<^sup>2 + cos r1 * cos r2 * (sin (dl / 2))\<^sup>2"
  shows "calculateDistance (point la1 lo1) (point la2 lo2)
           = Fin (EARTH_RADIUS_KM * (2 * atan2 (sqrt a) (sqrt (1 - a))))"
    and "0 \<le> a" and "a \<le> 1"
proof -
  show a: "0 \<le> a" "a \<le> 1"
    unfolding a_def using hav_bounds by blast+
  have big: "(1::real) \<le> 10 ^ 300"
    by simp
  have la: "\<bar>la1\<bar> \<le> 2 * 10 ^ 300" "\<bar>la2\<bar> \<le> 2 * 10 ^ 300"
    using assms(1,3) by linarith+
  have lat1: "toRad (Fin la1) = Fin r1" and lat2: "toRad (Fin la2) = Fin r2"
    unfolding r1_def r2_def by (rule toRad_small, rule la)+
  have b1: "\<bar>r1\<bar> \<le> 10 ^ 300" and b2: "\<bar>r2\<bar> \<le> 10 ^ 300"
    unfolding r1_def r2_def by (rule toRad_bound, rule la)+
  have dLat: "dsub (Fin r2) (Fin r1) = Fin (r2 - r1)"
    using b1 b2 by (simp add: dsub_def jssub_def overflow_small del: overflow.simps)
  have half1: "ddiv (Fin (r2 - r1)) (Fin 2) = Fin ((r2 - r1) / 2)"
    using b1 b2 by (simp add: ddiv_def overflow_small del: overflow.simps)
  have dlo: "\<bar>lo2 - lo1\<bar> \<le> 2 * 10 ^ 300"
    using assms(2,4) by simp
  then have d0: "dsub (Fin lo2) (Fin lo1) = Fin (lo2 - lo1)"
    by (simp add: dsub_def jssub_def overflow_small del: overflow.simps)
  have dLng: "toRad (Fin (lo2 - lo1)) = Fin dl"
    unfolding dl_def using dlo by (rule toRad_small)
  have "\<bar>dl\<bar> \<le> 10 ^ 300"
    unfolding dl_def using dlo by (rule toRad_bound)
  then have half2: "ddiv (Fin dl) (Fin 2) = Fin (dl / 2)"
    by (simp add: ddiv_def overflow_small del: overflow.simps)
  have unit: "overflow (Fin x) = Fin x" if "\<bar>x\<bar> \<le> 1" for x :: real
    using that by (intro overflow_small) simp
  have sq: "squared (Fin (sin x)) = Fin ((sin x)\<^sup>2)" for x :: real
  proof -
    have "\<bar>(sin x)\<^sup>2\<bar> \<le> 1"
      by (simp add: abs_square_le_1)
    then have "\<bar>sin x * sin x\<bar> \<le> 1"
      by (simp only: power2_eq_square)
    then show ?thesis
      by (simp add: squared_def dmul_def unit power2_eq_square del: overflow.simps)
  qed
  have cc: "\<bar>cos r1 * cos r2\<bar> \<le> 1"
    unfolding abs_mult by (intro mult_le_one) simp_all
  then have m1: "dmul (Fin (cos r1)) (Fin (cos r2)) = Fin (cos r1 * cos r2)"
    by (simp add: dmul_def unit del: overflow.simps)
  have s2: "\<bar>(sin (dl / 2))\<^sup>2\<bar> \<le> 1"
    by (simp add: abs_square_le_1)
  have "\<bar>cos r1 * cos r2 * (sin (dl / 2))\<^sup>2\<bar> \<le> 1"
    unfolding abs_mult [of "cos r1 * cos r2"] using cc s2 by (intro mult_le_one) simp_all
  then have m2: "dmul (Fin (cos r1 * cos r2)) (Fin ((sin (dl / 2))\<^sup>2))
      = Fin (cos r1 * cos r2 * (sin (dl / 2))\<^sup>2)"
    by (simp add: dmul_def unit del: overflow.simps)
  have sum: "dadd (Fin ((sin ((r2 - r1) / 2))\<^sup>2)) (Fin (cos r1 * cos r2 * (sin (dl / 2))\<^sup>2))
      = Fin a"
    using a unfolding a_def by (simp add: dadd_def unit del: overflow.simps)
  have one: "dsub (Fin 1) (Fin a) = Fin (1 - a)"
    using a by (simp add: dsub_def jssub_def unit del: overflow.simps)
  have roots: "jssqrt (Fin a) = Fin (sqrt a)" "jssqrt (Fin (1 - a)) = Fin (sqrt (1 - a))"
    using a by simp_all
  let ?t = "atan2 (sqrt a) (sqrt (1 - a))"
  have "0 \<le> sqrt a" "0 \<le> sqrt (1 - a)"
    using a by simp_all
  then have t: "0 \<le> ?t" "?t \<le> pi / 2"
    by (rule atan2_range)+
  then have "\<bar>2 * ?t\<bar> \<le> 4"
    using pi_less_4 by simp
  then have c: "dmul (Fin 2) (Fin ?t) = Fin (2 * ?t)"
    by (simp add: dmul_def overflow_small del: overflow.simps)
  have "\<bar>EARTH_RADIUS_KM * (2 * ?t)\<bar> \<le> 6371 * 4"
    using t pi_less_4 by (simp add: EARTH_RADIUS_KM_def abs_mult)
  then have res: "dmul (Fin EARTH_RADIUS_KM) (Fin (2 * ?t)) = Fin (EARTH_RADIUS_KM * (2 * ?t))"
    by (simp add: dmul_def overflow_small del: overflow.simps)
  show "calculateDistance (point la1 lo1) (point la2 lo2)
      = Fin (EARTH_RADIUS_KM * (2 * atan2 (sqrt a) (sqrt (1 - a))))"
    by (simp only: calculateDistance_def point_simps Let_def lat1 lat2 dLat half1 d0 dLng half2
        jssin.simps jscos.simps sq m1 m2 sum one roots jsatan2.simps c res simp_thms if_False)
qed

lemma calculateDistance_valid:
  assumes "\<bar>la1\<bar> \<le> 10 ^ 300" "\<bar>lo1\<bar> \<le> 10 ^ 300" "\<bar>la2\<bar> \<le> 10 ^ 300" "\<bar>lo2\<bar> \<le> 10 ^ 300"
  shows "\<exists>d. calculateDistance (point la1 lo1) (point la2 lo2) = Fin d \<and> 0 \<le> d"
proof -
  define a where "a = (sin ((la2 * pi / 180 - la1 * pi / 180) / 2))\<^sup>2
      + cos (la1 * pi / 180) * cos (la2 * pi / 180) * (sin ((lo2 - lo1) * pi / 180 / 2))\<^sup>2"
  have a: "0 \<le> a" "a \<le> 1"
    and eq: "calculateDistance (point la1 lo1) (point la2 lo2)
      = Fin (EARTH_RADIUS_KM * (2 * atan2 (sqrt a) (sqrt (1 - a))))"
    unfolding a_def using calculateDistance_small [OF assms] by blast+
  have "0 \<le> atan2 (sqrt a) (sqrt (1 - a))"
    using a by (simp add: atan2_range)
  then have "0 \<le> EARTH_RADIUS_KM * (2 * atan2 (sqrt a) (sqrt (1 - a)))"
    by (simp add: EARTH_RADIUS_KM_def)
  then show ?thesis
    using eq by blast
qed

lemma calculateDistance_same:
  assumes "\<bar>la\<bar> \<le> 10 ^ 300" "\<bar>lo\<bar> \<le> 10 ^ 300"
  shows "calculateDistance (point la lo) (point la lo) = Fin 0"
  using calculateDistance_small(1) [OF assms assms] by (simp add: atan2_def)

lemma calculateDistance_invalid:
  "\<not> hasValidLocation p1 \<or> \<not> hasValidLocation p2 \<Longrightarrow> calculateDistance p1 p2 = PInf"
  by (auto simp: calculateDistance_def)

text \<open>
  The parts of the distance contract that hold: the sentinel \<open>Infinity\<close> when either
  argument is not a point with finite numeric latitude and longitude; and, on coordinates
  of magnitude up to \<open>10^300\<close> and without rounding, a finite result that is not negative,
  and \<open>0\<close> on twice the same point.
\<close>

lemma calculateDistance_in_range:
  "((\<nexists>la lo. p1 = point la lo) \<or> (\<nexists>la lo. p2 = point la lo)
      \<longrightarrow> calculateDistance p1 p2 = PInf) \<and>
   (\<bar>la1\<bar> \<le> 10 ^ 300 \<and> \<bar>lo1\<bar> \<le> 10 ^ 300 \<and> \<bar>la2\<bar> \<le> 10 ^ 300 \<and> \<bar>lo2\<bar> \<le> 10 ^ 300
      \<longrightarrow> (\<exists>d. calculateDistance (point la1 lo1) (point la2 lo2) = Fin d \<and> 0 \<le> d)) \<and>
   (\<bar>la1\<bar> \<le> 10 ^ 300 \<and> \<bar>lo1\<bar> \<le> 10 ^ 300
      \<longrightarrow> calculateDistance (point la1 lo1) (point la1 lo1) = Fin 0)"
  using calculateDistance_invalid [of p1 p2] calculateDistance_valid [of la1 lo1 la2 lo2]
    calculateDistance_same [of la1 lo1]
  by (simp add: hasValidLocation_iff)

text \<open>
  Claim C7 fails on the code. The point with latitude \<open>10^308\<close> and longitude \<open>0\<close> has
  finite numeric coordinates, so \<open>hasValidLocation\<close> accepts it. In \<open>toRad\<close> the product
  of \<open>10^308\<close> and \<open>\<pi>\<close> is beyond the largest double and is \<open>Infinity\<close>; both
  latitudes in radians are \<open>Infinity\<close>, their difference is \<open>NaN\<close>, and \<open>NaN\<close> is what
  \<open>calculateDistance\<close> returns for twice this point: not \<open>0\<close>, and not a finite number.
\<close>

theorem calculateDistance_overflow_NaN:
  "hasValidLocation (point (10 ^ 308) 0) \<and>
   toRad (Fin (10 ^ 308)) = PInf \<and>
   calculateDistance (point (10 ^ 308) 0) (point (10 ^ 308) 0) = NaN \<and>
   calculateDistance (point (10 ^ 308) 0) (point (10 ^ 308) 0) \<noteq> Fin 0 \<and>
   \<not> isFinite (calculateDistance (point (10 ^ 308) 0) (point (10 ^ 308) 0))"
proof -
  have "(2::real) * 10 ^ 308 \<le> 10 ^ 308 * pi"
    using pi_ge_two by simp
  moreover have "(2::real) ^ 1024 - 2 ^ 970 \<le> 2 * 10 ^ 308"
    by simp
  ultimately have "(2::real) ^ 1024 - 2 ^ 970 \<le> 10 ^ 308 * pi"
    by (rule order_trans [rotated])
  then have "overflow (Fin (10 ^ 308 * pi)) = PInf"
    by (simp del: power_numeral)
  then have rad: "toRad (Fin (10 ^ 308)) = PInf"
    by (simp add: toRad_def dmul_def ddiv_def infOfSign_def del: power_numeral)
  have "dsub PInf PInf = NaN"
    by (simp add: dsub_def jssub_def)
  then have "calculateDistance (point (10 ^ 308) 0) (point (10 ^ 308) 0) = NaN"
    by (simp add: calculateDistance_def Let_def rad ddiv_def dadd_def dmul_def squared_def
        del: power_numeral)
  then show ?thesis
    using rad by simp
qed

theorem calculateDistance_overflow_NaN_witness:
  "hasValidLocation (Some \<lparr> lat = Some (Fin (10 ^ 308)), lng = Some (Fin 0) \<rparr>) \<and>
   calculateDistance (Some \<lparr> lat = Some (Fin (10 ^ 308)), lng = Some (Fin 0) \<rparr>)
     (Some \<lparr> lat = Some (Fin (10 ^ 308)), lng = Some (Fin 0) \<rparr>) = NaN"
  using calculateDistance_overflow_NaN unfolding point_def by blast

section \<open>Proximity\<close>

lemma proximity_finite:
  "0 \<le> d \<Longrightarrow> d0 \<noteq> 0 \<Longrightarrow> proximityScoreFromKm (Fin d) d0 = Fin (exp (- d / d0))"
  by (simp add: proximityScoreFromKm_def jsmax_def Let_def)

lemma jsle_Fin: "jsle (Fin a) (Fin b) \<longleftrightarrow> a \<le> b"
  by (auto simp: jsle_def)

text \<open>
  Claim C9. For a fixed positive finite distance \<open>d\<close> and decay constants
  \<open>0 < d0 \<le> d0'\<close>, the proximity score under \<open>d0\<close> is at most the one under \<open>d0'\<close>.
\<close>

theorem proximity_monotone_in_decay:
  assumes "0 < d" and "0 < d0" and "d0 \<le> d0'"
  shows "jsle (proximityScoreFromKm (Fin d) d0) (proximityScoreFromKm (Fin d) d0')"
proof -
  have "d / d0' \<le> d / d0"
    using assms by (simp add: frac_le)
  then have "exp (- d / d0) \<le> exp (- d / d0')"
    by simp
  moreover have "proximityScoreFromKm (Fin d) d0 = Fin (exp (- d / d0))"
    "proximityScoreFromKm (Fin d) d0' = Fin (exp (- d / d0'))"
    using assms by (simp_all add: proximity_finite)
  ultimately show ?thesis
    by (simp only: jsle_Fin)
qed

theorem proximity_monotone_in_decay_witness:
  "jsle (proximityScoreFromKm (Fin 250) 500) (proximityScoreFromKm (Fin 250) 1000)"
  using proximity_monotone_in_decay [of 250 500 1000] by simp

section \<open>The limit\<close>

lemma sint32_of_int:
  "sint (word_of_int n :: 32 word) = (n + 2 ^ 31) mod 2 ^ 32 - 2 ^ 31"
  by (simp add: sint_sbintrunc' signed_take_bit_eq_take_bit_shift take_bit_eq_mod)

lemma bitOrZero_Fin:
  "bitOrZero (Fin x) = (truncToZero x + 2 ^ 31) mod 2 ^ 32 - 2 ^ 31"
  by (simp add: bitOrZero_def sint32_of_int)

lemma bitOrZero_small:
  assumes "0 \<le> x" and "x < 2 ^ 31"
  shows "bitOrZero (Fin x) = \<lfloor>x\<rfloor>"
proof -
  have "0 \<le> \<lfloor>x\<rfloor>" "\<lfloor>x\<rfloor> < 2 ^ 31"
    using assms by (simp_all add: floor_less_iff)
  then have "(\<lfloor>x\<rfloor> + 2 ^ 31) mod 2 ^ 32 = \<lfloor>x\<rfloor> + 2 ^ 31"
    by (intro mod_pos_pos_trivial) simp_all
  then show ?thesis
    using assms by (simp add: bitOrZero_Fin truncToZero_def)
qed

lemma bitOrZero_2p31: "bitOrZero (Fin 2147483648) = - 2147483648"
  by (simp add: bitOrZero_Fin truncToZero_def)

lemma kOf_2p31: "kOf (Fin 2147483648) events = 0"
  by (simp add: kOf_def bitOrZero_2p31)

lemma limit_2p31_empty:
  "getRecommendedEvents lc cfg user events eventSimilarity (Some (Fin (2 ^ 31))) = Inr []"
  by (simp add: getRecommendedEvents_def Let_def kOf_2p31)




section \<open>Special values\<close>

lemma isFinite_iff: "isFinite a \<longleftrightarrow> (\<exists>x. a = Fin x)"
  by (cases a) simp_all

lemma jsadd_zero [simp]: "jsadd (Fin 0) a = a" "jsadd a (Fin 0) = a"
  by (cases a; simp)+

lemma jsadd_NaN [simp]: "jsadd a NaN = NaN"
  by (cases a) simp_all

lemma jsmul_NaN [simp]: "jsmul a NaN = NaN"
  by (cases a) simp_all

lemma jsdiv_NaN [simp]: "jsdiv a NaN = NaN"
  by (cases a) simp_all

section \<open>Popularity\<close>

lemma clampPopularity_range:
  assumes "x \<noteq> NaN"
  shows "\<exists>p. clampPopularity (Some x) = Fin p \<and> 0 \<le> p \<and> p \<le> 1"
  using assms by (cases x) (auto simp: clampPopularity_def jsmax_def jsmin_def)

lemma clampPopularity_cases:
  "clampPopularity p = NaN \<or> (\<exists>q. clampPopularity p = Fin q \<and> 0 \<le> q \<and> q \<le> 1)"
proof (cases p)
  case None
  then show ?thesis by (simp add: clampPopularity_def)
next
  case (Some x)
  then show ?thesis
    using clampPopularity_range [of x] by (cases "x = NaN") (auto simp: clampPopularity_def jsmin_def jsmax_def)
qed

text \<open>
  Claim C8. The popularity that enters the score, the tiebreaker and the category prior
  lies in \<open>[0, 1]\<close> for every event whose popularity is a number. The clamp does so for
  every number but \<open>NaN\<close> (\<open>clampPopularity_range\<close>), and a popularity that is not a
  number counts as \<open>0\<close>. The number \<open>NaN\<close> passes \<^verbatim>\<open>Math.max(0, Math.min(1, p))\<close>
  unchanged: on the event \<open>nanEvent\<close> the node's popularity and score and the prior of
  its category are all \<open>NaN\<close>.
\<close>

theorem popularity_NaN_passes_clamp:
  "clampPopularity (Some NaN) = NaN \<and>
   scoreEvent CONFIG sampleUser [Some nanEvent] Map.empty (Some nanEvent)
     = Some \<lparr> score = NaN, distance = PInf, popularity = NaN, n_id = ''e9'',
              event = nanEvent \<rparr> \<and>
   buildCategoryPopularityMap [Some nanEvent] ''music'' = Some NaN"
proof (intro conjI)
  show c: "clampPopularity (Some NaN) = NaN"
    by (simp add: clampPopularity_def jsmin_def jsmax_def)
  have pop: "e_popularity nanEvent = Some NaN" and ident: "e_id nanEvent = Some ''e9''"
    by (simp_all add: nanEvent_def)
  have comb: "combined CONFIG sampleUser [Some nanEvent] Map.empty nanEvent ''e9'' = NaN"
    by (simp add: combined_def weightedSum_def popTerm_def active_def pop c)
  have cut: "\<not> cutOff CONFIG sampleUser nanEvent"
    by (simp add: cutOff_def hasGeo_def sampleUser_def)
  have dist: "distanceKm sampleUser nanEvent = PInf"
    by (simp add: distanceKm_def hasGeo_def sampleUser_def)
  have att: "attended sampleUser = [''e3'']"
    by (simp add: attended_def sampleUser_def)
  show "scoreEvent CONFIG sampleUser [Some nanEvent] Map.empty (Some nanEvent)
     = Some \<lparr> score = NaN, distance = PInf, popularity = NaN, n_id = ''e9'',
              event = nanEvent \<rparr>"
    by (simp add: scoreEvent_def comb cut dist att pop ident c)
  show "buildCategoryPopularityMap [Some nanEvent] ''music'' = Some NaN"
    by (simp add: buildCategoryPopularityMap_def popOf_def catsOf_def nanEvent_def c)
qed

section \<open>Geo signal\<close>

text \<open>
  Claim C3, as stated, at a user with a valid location and an event without one: the
  geo signal is active for the user and the event's proximity value is the number \<open>0\<close>.
\<close>

theorem geo_active_with_zero_proximity:
  "\<not> hasValidLocation (e_location event1) \<and> a_geo (active geoUser) \<and>
   geoScore CONFIG geoUser event1 = Fin 0"
  by (simp add: event1_def geoUser_def active_def hasGeo_def point_def geoScore_def
      distanceKm_def proximityScoreFromKm_def)

text \<open>
  Claim C3, amended. The geo signal is active exactly when the user's location is valid,
  whatever the event's location. Without a valid user location the signal is inactive;
  with one, and an event whose location is missing or invalid, the signal stays active.
  In both cases the event's distance is the sentinel \<open>Infinity\<close>, its proximity value is
  \<open>0\<close>, and the geo summand of the combined score is \<open>0\<close>, never \<open>NaN\<close>.
\<close>

theorem geo_signal_on_missing_location:
  "(\<not> hasValidLocation (u_location user) \<longrightarrow>
      \<not> a_geo (active user) \<and> distanceKm user ev = PInf \<and>
      geoScore cfg user ev = Fin 0 \<and> geoTerm cfg user ev = Fin 0) \<and>
   (hasValidLocation (u_location user) \<and> \<not> hasValidLocation (e_location ev) \<longrightarrow>
      a_geo (active user) \<and> distanceKm user ev = PInf \<and>
      geoScore cfg user ev = Fin 0 \<and> geoTerm cfg user ev = Fin 0)"
  by (simp add: active_def hasGeo_def distanceKm_def geoScore_def geoTerm_def
      proximityScoreFromKm_def)

theorem geo_signal_on_missing_location_witness:
  "\<not> a_geo (active sampleUser) \<and> distanceKm sampleUser event1 = PInf \<and>
   geoScore CONFIG sampleUser event1 = Fin 0 \<and> geoTerm CONFIG sampleUser event1 = Fin 0 \<and>
   a_geo (active geoUser) \<and> distanceKm geoUser event1 = PInf \<and>
   geoScore CONFIG geoUser event1 = Fin 0 \<and> geoTerm CONFIG geoUser event1 = Fin 0"
proof -
  have 1: "\<not> hasValidLocation (u_location sampleUser)"
    by (simp add: sampleUser_def)
  have 2: "hasValidLocation (u_location geoUser) \<and> \<not> hasValidLocation (e_location event1)"
    by (simp add: geoUser_def event1_def point_def)
  show ?thesis
    using geo_signal_on_missing_location [of sampleUser event1 CONFIG]
      geo_signal_on_missing_location [of geoUser event1 CONFIG] 1 2
    by blast
qed

section \<open>Finite scores\<close>

lemma orZero_finite: "(\<And>v. m = Some v \<Longrightarrow> noInf v) \<Longrightarrow> isFinite (orZero m)"
  by (cases m rule: orZero.cases) (auto simp: noInf_def)

lemma jsadd_finite: "isFinite a \<Longrightarrow> isFinite b \<Longrightarrow> isFinite (jsadd a b)"
  by (auto simp: isFinite_iff)

lemma jsmul_finite: "isFinite a \<Longrightarrow> isFinite b \<Longrightarrow> isFinite (jsmul a b)"
  by (auto simp: isFinite_iff)

lemma jsdiv_finite: "isFinite a \<Longrightarrow> y \<noteq> 0 \<Longrightarrow> isFinite (jsdiv a (Fin y))"
  by (auto simp: isFinite_iff)

lemma clampPopularity_NaN_iff: "clampPopularity p = NaN \<longleftrightarrow> p = Some NaN"
proof (cases p)
  case None
  then show ?thesis by (simp add: clampPopularity_def)
next
  case (Some x)
  then show ?thesis
    by (cases x) (simp_all add: clampPopularity_def jsmin_def jsmax_def)
qed

lemma noInf_clampPopularity: "noInf (clampPopularity p)"
  using clampPopularity_cases [of p] by (auto simp: noInf_def)

lemma noInf_jsadd: "isFinite a \<Longrightarrow> noInf b \<Longrightarrow> noInf (jsadd a b)"
  by (cases b) (auto simp: isFinite_iff noInf_def)

lemma tallyCats_noInf:
  assumes "\<And>c v. tally c = Some v \<Longrightarrow> noInf v" and "noInf pop"
  shows "tallyCats tally pop cats c = Some v \<Longrightarrow> noInf v"
  using assms(1)
proof (induction cats arbitrary: tally)
  case Nil
  then show ?case by simp
next
  case (Cons c' cats)
  let ?t = "tally(c' \<mapsto> jsadd (orZero (tally c')) pop)"
  have "isFinite (orZero (tally c'))"
    using Cons.prems(2) by (rule orZero_finite)
  then have new: "noInf (jsadd (orZero (tally c')) pop)"
    using assms(2) by (rule noInf_jsadd)
  have t: "\<And>d w. ?t d = Some w \<Longrightarrow> noInf w"
  proof -
    fix d w
    assume "?t d = Some w"
    then show "noInf w"
      using new Cons.prems(2) [of d w] by (cases "d = c'") simp_all
  qed
  have "tallyCats ?t pop cats c = Some v"
    using Cons.prems(1) by simp
  then show ?case
    using t by (rule Cons.IH)
qed

lemma tallyEvents_noInf:
  assumes "\<And>c v. tally c = Some v \<Longrightarrow> noInf v"
  shows "tallyEvents tally es c = Some v \<Longrightarrow> noInf v"
  using assms
proof (induction es arbitrary: tally)
  case Nil
  then show ?case by simp
next
  case (Cons e es)
  let ?t = "tallyCats tally (popOf e) (catsOf e)"
  have pop: "noInf (popOf e)"
  proof (cases e)
    case None
    then show ?thesis by (simp add: popOf_def noInf_def)
  next
    case (Some ev)
    then show ?thesis by (simp add: popOf_def noInf_clampPopularity)
  qed
  have t: "\<And>d w. ?t d = Some w \<Longrightarrow> noInf w"
    using Cons.prems(2) pop by (rule tallyCats_noInf)
  have "tallyEvents ?t es c = Some v"
    using Cons.prems(1) by simp
  then show ?case
    using t by (rule Cons.IH)
qed

lemma buildCategoryPopularityMap_noInf:
  "buildCategoryPopularityMap events c = Some v \<Longrightarrow> noInf v"
  unfolding buildCategoryPopularityMap_def by (rule tallyEvents_noInf [of Map.empty]) simp_all

lemma foldl_prior_finite:
  assumes "\<And>c v. m c = Some v \<Longrightarrow> noInf v" and "isFinite a"
  shows "isFinite (foldl (\<lambda>s c. jsadd s (orZero (m c))) a cats)"
  using assms(2)
proof (induction cats arbitrary: a)
  case Nil
  then show ?case by simp
next
  case (Cons c cats)
  have "isFinite (jsadd a (orZero (m c)))"
    using Cons.prems assms(1) by (intro jsadd_finite orZero_finite) auto
  then show ?case
    using Cons.IH by simp
qed

lemma priorSumOf_finite:
  "(\<And>c v. m c = Some v \<Longrightarrow> noInf v) \<Longrightarrow> isFinite (priorSumOf m cats)"
  unfolding priorSumOf_def by (rule foldl_prior_finite) simp_all

lemma maxPriorLoop_finite:
  assumes "\<And>c v. m c = Some v \<Longrightarrow> noInf v" and "isFinite a"
  shows "isFinite (maxPriorLoop m a es)"
  using assms(2)
proof (induction es arbitrary: a)
  case Nil
  then show ?case by simp
next
  case (Cons e es)
  have "isFinite (priorSumOf m (catsOf e))"
    using assms(1) by (rule priorSumOf_finite)
  with Cons show ?case
    by (simp add: Let_def)
qed

lemma coldScore_finite: "isFinite (coldScore user events ev)"
proof (cases "coldStart user")
  case False
  then show ?thesis
    by (simp add: coldScore_def popByCat_def)
next
  case True
  let ?m = "buildCategoryPopularityMap events"
  have m: "\<And>c v. ?m c = Some v \<Longrightarrow> noInf v"
    by (rule buildCategoryPopularityMap_noInf)
  have "isFinite (maxPrior user events)"
    using True m by (simp add: maxPrior_def computeMaxPriorAcrossEvents_def maxPriorLoop_finite)
  then obtain y where y: "maxPrior user events = Fin y"
    by (auto simp: isFinite_iff)
  have p: "isFinite (priorSumOf ?m (e_categories ev))"
    using m by (rule priorSumOf_finite)
  show ?thesis
  proof (cases "0 < y")
    case pos: True
    then have "isFinite (jsdiv (priorSumOf ?m (e_categories ev)) (Fin y))"
      using p by (intro jsdiv_finite) simp_all
    then show ?thesis
      using True y by (simp add: coldScore_def popByCat_def jsgt_def Let_def)
  next
    case False
    then show ?thesis
      using True y by (simp add: coldScore_def popByCat_def jsgt_def Let_def)
  qed
qed

lemma proximity_is_finite:
  assumes "d0 \<noteq> 0"
  shows "isFinite (proximityScoreFromKm a d0)"
proof (cases a)
  case (Fin x)
  then show ?thesis
    using assms by (simp add: proximityScoreFromKm_def jsmax_def Let_def)
qed (simp_all add: proximityScoreFromKm_def)

lemma geoScore_finite: "distanceDecayKm cfg \<noteq> 0 \<Longrightarrow> isFinite (geoScore cfg user ev)"
  by (simp add: geoScore_def proximity_is_finite)

lemma activeWeightSum_nonneg:
  assumes "0 \<le> w_pref (cfg_weights cfg)" "0 \<le> w_sim (cfg_weights cfg)"
    "0 \<le> w_geo (cfg_weights cfg)" "0 \<le> w_pop (cfg_weights cfg)"
    "0 \<le> w_cold (cfg_weights cfg)"
  shows "0 \<le> activeWeightSum cfg user"
  using assms by (simp add: activeWeightSum_def Let_def)

lemma weightSum_pos: "0 < weightSum cfg user"
  by (simp add: weightSum_def Let_def)

lemma combined_finite:
  assumes "e_popularity ev \<noteq> Some NaN" and "distanceDecayKm cfg \<noteq> 0"
  shows "isFinite (combined cfg user events eventSimilarity ev i)"
proof -
  have pop: "isFinite (clampPopularity (e_popularity ev))"
    using clampPopularity_cases [of "e_popularity ev"] assms(1)
    by (auto simp: clampPopularity_NaN_iff)
  have "isFinite (prefTerm cfg user ev)" "isFinite (simTerm cfg user eventSimilarity i)"
    "isFinite (geoTerm cfg user ev)" "isFinite (popTerm cfg user ev)"
    "isFinite (coldTerm cfg user events ev)"
    using pop assms(2)
    by (simp_all add: prefTerm_def simTerm_def geoTerm_def popTerm_def coldTerm_def
        jsmul_finite geoScore_finite coldScore_finite)
  then have "isFinite (weightedSum cfg user events eventSimilarity ev i)"
    unfolding weightedSum_def by (intro jsadd_finite)
  then show ?thesis
    unfolding combined_def using weightSum_pos [of cfg user] by (intro jsdiv_finite) simp_all
qed

section \<open>Combined score\<close>

lemma active_flags:
  "active user =
     \<lparr> a_pref = (u_preferences user \<noteq> []), a_sim = (u_attendedEvents user \<noteq> []),
       a_geo = hasValidLocation (u_location user), a_pop = True,
       a_cold = (u_preferences user = [] \<and> u_attendedEvents user = []) \<rparr>"
  by (simp add: active_def hasPrefs_def hasHistory_def hasGeo_def coldStart_def prefs_def
      attended_def)

lemma weightedSum_rows:
  "weightedSum cfg user events eventSimilarity ev i =
     foldl jsadd (Fin 0)
       (map (\<lambda>(w, v). jsmul (Fin w) v)
          (activeRows (signalRows cfg user events eventSimilarity ev i)))"
  by (simp add: weightedSum_def prefTerm_def simTerm_def geoTerm_def popTerm_def coldTerm_def
      active_flags signalRows_def activeRows_def)

lemma activeWeightSum_rows:
  "activeWeightSum cfg user =
     sum_list (map fst (activeRows (signalRows cfg user events eventSimilarity ev i)))"
  by (simp add: activeWeightSum_def active_flags signalRows_def activeRows_def Let_def)

lemma combined_zero_weights:
  assumes w: "0 \<le> w_pref (cfg_weights cfg)" "0 \<le> w_sim (cfg_weights cfg)"
    "0 \<le> w_geo (cfg_weights cfg)" "0 \<le> w_pop (cfg_weights cfg)"
    "0 \<le> w_cold (cfg_weights cfg)"
    and zero: "activeWeightSum cfg user = 0"
    and pop: "e_popularity ev \<noteq> Some NaN" and d0: "distanceDecayKm cfg \<noteq> 0"
  shows "combined cfg user events eventSimilarity ev i = Fin 0"
proof -
  have z: "a_pref (active user) \<longrightarrow> w_pref (cfg_weights cfg) = 0"
    "a_sim (active user) \<longrightarrow> w_sim (cfg_weights cfg) = 0"
    "a_geo (active user) \<longrightarrow> w_geo (cfg_weights cfg) = 0"
    "w_pop (cfg_weights cfg) = 0"
    "a_cold (active user) \<longrightarrow> w_cold (cfg_weights cfg) = 0"
    using w zero by (auto simp: activeWeightSum_def Let_def active_def split: if_splits)
  obtain p where p: "clampPopularity (e_popularity ev) = Fin p"
    using clampPopularity_cases [of "e_popularity ev"] pop
    by (auto simp: clampPopularity_NaN_iff)
  obtain g where g: "geoScore cfg user ev = Fin g"
    using geoScore_finite [OF d0, of user ev] by (auto simp: isFinite_iff)
  obtain c where c: "coldScore user events ev = Fin c"
    using coldScore_finite [of user events ev] by (auto simp: isFinite_iff)
  have "prefTerm cfg user ev = Fin 0" "simTerm cfg user eventSimilarity i = Fin 0"
    "geoTerm cfg user ev = Fin 0" "popTerm cfg user ev = Fin 0"
    "coldTerm cfg user events ev = Fin 0"
    using z by (simp_all add: prefTerm_def simTerm_def geoTerm_def popTerm_def coldTerm_def p g c)
  then have "weightedSum cfg user events eventSimilarity ev i = Fin 0"
    by (simp add: weightedSum_def)
  then show ?thesis
    using zero by (simp add: combined_def weightSum_def)
qed

text \<open>
  Claim C5. For weights that are not negative, the signals are active as the claim
  says (preference match iff the preferences are not empty, content similarity iff the
  attended events are not empty, geo iff the user's location is valid, popularity always,
  cold start iff preferences and attended events are both empty), and the combined score
  of an event is \<open>specCombined\<close> of its rows: the sum of weight times value over the
  active signals, divided by the sum of the active weights, or by \<open>1\<close> when that sum is
  \<open>0\<close>. In that last case the score is \<open>0\<close>, for an event whose popularity is not
  \<open>NaN\<close> and a decay constant other than \<open>0\<close>.
\<close>

theorem combined_score_formula:
  assumes "0 \<le> w_pref (cfg_weights cfg)" and "0 \<le> w_sim (cfg_weights cfg)"
    and "0 \<le> w_geo (cfg_weights cfg)" and "0 \<le> w_pop (cfg_weights cfg)"
    and "0 \<le> w_cold (cfg_weights cfg)"
  shows "active user =
           \<lparr> a_pref = (u_preferences user \<noteq> []), a_sim = (u_attendedEvents user \<noteq> []),
             a_geo = hasValidLocation (u_location user), a_pop = True,
             a_cold = (u_preferences user = [] \<and> u_attendedEvents user = []) \<rparr> \<and>
         combined cfg user events eventSimilarity ev i
           = specCombined (signalRows cfg user events eventSimilarity ev i) \<and>
         (sum_list (map fst (activeRows (signalRows cfg user events eventSimilarity ev i))) = 0
            \<and> e_popularity ev \<noteq> Some NaN \<and> distanceDecayKm cfg \<noteq> 0
          \<longrightarrow> combined cfg user events eventSimilarity ev i = Fin 0)"
proof (intro conjI impI)
  show "active user =
           \<lparr> a_pref = (u_preferences user \<noteq> []), a_sim = (u_attendedEvents user \<noteq> []),
             a_geo = hasValidLocation (u_location user), a_pop = True,
             a_cold = (u_preferences user = [] \<and> u_attendedEvents user = []) \<rparr>"
    by (rule active_flags)
next
  let ?rows = "signalRows cfg user events eventSimilarity ev i"
  have s: "activeWeightSum cfg user = sum_list (map fst (activeRows ?rows))"
    by (rule activeWeightSum_rows)
  have "0 \<le> activeWeightSum cfg user"
    using assms by (rule activeWeightSum_nonneg)
  then have "weightSum cfg user
      = (if sum_list (map fst (activeRows ?rows)) = 0 then 1
         else sum_list (map fst (activeRows ?rows)))"
    using s by (simp add: weightSum_def Let_def)
  then show "combined cfg user events eventSimilarity ev i = specCombined ?rows"
    by (simp add: combined_def specCombined_def weightedSum_rows Let_def)
next
  assume "sum_list (map fst (activeRows (signalRows cfg user events eventSimilarity ev i))) = 0
            \<and> e_popularity ev \<noteq> Some NaN \<and> distanceDecayKm cfg \<noteq> 0"
  then have "activeWeightSum cfg user = 0" "e_popularity ev \<noteq> Some NaN"
    "distanceDecayKm cfg \<noteq> 0"
    by (simp_all add: activeWeightSum_rows [of cfg user events eventSimilarity ev i])
  with assms show "combined cfg user events eventSimilarity ev i = Fin 0"
    by (rule combined_zero_weights)
qed

lemma sample_simCount:
  "simCount sampleUser sampleSimilarity ''e1'' = 0"
  "simCount sampleUser sampleSimilarity ''e2'' = 1"
  by (simp_all add: simCount_def similarCounts_def buildSimilarCounts_def attended_def
      sampleUser_def sampleSimilarity_def)

lemma sample_rows1:
  "signalRows CONFIG sampleUser sampleEvents sampleSimilarity event1 ''e1''
     = [(True, 0.35, Fin 1), (True, 0.30, Fin 0), (False, 0.20, Fin 0), (True, 0.15, Fin 0.9),
        (False, 0.10, Fin 0)]"
  by (simp add: signalRows_def CONFIG_def sampleUser_def event1_def prefScore_def hasPrefs_def
      prefs_def jaccard_def simScore_def hasHistory_def attended_def sample_simCount [unfolded sampleUser_def]
      geoScore_def active_def hasGeo_def clampPopularity_def jsmin_def jsmax_def
      coldScore_def popByCat_def coldStart_def)

theorem combined_score_formula_witness:
  "combined CONFIG sampleUser sampleEvents sampleSimilarity event1 ''e1'' = Fin (97 / 160) \<and>
   specCombined (signalRows CONFIG sampleUser sampleEvents sampleSimilarity event1 ''e1'')
     = Fin (97 / 160) \<and>
   combined zeroConfig sampleUser sampleEvents sampleSimilarity event1 ''e1'' = Fin 0"
proof -
  have w: "0 \<le> w_pref (cfg_weights CONFIG)" "0 \<le> w_sim (cfg_weights CONFIG)"
    "0 \<le> w_geo (cfg_weights CONFIG)" "0 \<le> w_pop (cfg_weights CONFIG)"
    "0 \<le> w_cold (cfg_weights CONFIG)"
    by (simp_all add: CONFIG_def)
  have z: "0 \<le> w_pref (cfg_weights zeroConfig)" "0 \<le> w_sim (cfg_weights zeroConfig)"
    "0 \<le> w_geo (cfg_weights zeroConfig)" "0 \<le> w_pop (cfg_weights zeroConfig)"
    "0 \<le> w_cold (cfg_weights zeroConfig)"
    by (simp_all add: zeroConfig_def)
  have v: "specCombined (signalRows CONFIG sampleUser sampleEvents sampleSimilarity event1 ''e1'')
     = Fin (97 / 160)"
    by (simp add: sample_rows1 specCombined_def activeRows_def)
  have zs: "sum_list (map fst (activeRows
      (signalRows zeroConfig sampleUser sampleEvents sampleSimilarity event1 ''e1''))) = 0"
    by (simp add: signalRows_def activeRows_def zeroConfig_def)
  have ok: "e_popularity event1 \<noteq> Some NaN" "distanceDecayKm zeroConfig \<noteq> 0"
    by (simp_all add: event1_def zeroConfig_def CONFIG_def)
  have "combined CONFIG sampleUser sampleEvents sampleSimilarity event1 ''e1''
      = specCombined (signalRows CONFIG sampleUser sampleEvents sampleSimilarity event1 ''e1'')"
    using combined_score_formula [OF w, of sampleUser sampleEvents sampleSimilarity event1 "''e1''"]
    by blast
  moreover have "combined zeroConfig sampleUser sampleEvents sampleSimilarity event1 ''e1'' = Fin 0"
    using combined_score_formula [OF z, of sampleUser sampleEvents sampleSimilarity event1 "''e1''"]
      zs ok
    by blast
  ultimately show ?thesis
    using v by simp
qed

section \<open>Diversity re-rank is a permutation\<close>

lemma jsgt_val_NInf: "rankable a \<Longrightarrow> jsgt (jssub a (Fin p)) NInf"
  by (cases a) (simp_all add: rankable_def jsgt_def jssub_def)

lemma bestStep_index:
  assumes "fst st = None \<or> (\<exists>b<j. fst st = Some b \<and> \<not> used ! b)"
  shows "fst (bestStep nodes al cap used cc st j) = None \<or>
         (\<exists>b<Suc j. fst (bestStep nodes al cap used cc st j) = Some b \<and> \<not> used ! b)"
  using assms by (auto simp: bestStep_def Let_def less_Suc_eq)

lemma foldl_bestStep_index:
  "fst (foldl (bestStep nodes al cap used cc) (None, NInf) [0..<j]) = None \<or>
   (\<exists>b<j. fst (foldl (bestStep nodes al cap used cc) (None, NInf) [0..<j]) = Some b
      \<and> \<not> used ! b)"
proof (induction j)
  case 0
  then show ?case by simp
next
  case (Suc j)
  then show ?case
    using bestStep_index [of "foldl (bestStep nodes al cap used cc) (None, NInf) [0..<j]" j used
        nodes al cap cc]
    by simp
qed

lemma findBest_Some:
  "findBest nodes al cap used cc = Some b \<Longrightarrow> b < length nodes \<and> \<not> used ! b"
  using foldl_bestStep_index [of nodes al cap used cc "length nodes"]
  by (auto simp: findBest_def)

lemma bestStep_found:
  assumes "fst st \<noteq> None \<or> (snd st = NInf \<and> (\<forall>i<j. used ! i))"
    and "rankable (score (nodes ! j))"
  shows "fst (bestStep nodes al cap used cc st j) \<noteq> None \<or>
         (snd (bestStep nodes al cap used cc st j) = NInf \<and> (\<forall>i<Suc j. used ! i))"
  using assms jsgt_val_NInf [of "score (nodes ! j)" "penaltyFor al cap cc (event (nodes ! j))"]
  by (auto simp: bestStep_def Let_def less_Suc_eq)

lemma foldl_bestStep_found:
  assumes "\<forall>i<length nodes. rankable (score (nodes ! i))" and "j \<le> length nodes"
  shows "fst (foldl (bestStep nodes al cap used cc) (None, NInf) [0..<j]) \<noteq> None \<or>
         (snd (foldl (bestStep nodes al cap used cc) (None, NInf) [0..<j]) = NInf \<and>
          (\<forall>i<j. used ! i))"
  using assms(2)
proof (induction j)
  case 0
  then show ?case by simp
next
  case (Suc j)
  then have "rankable (score (nodes ! j))"
    using assms(1) by simp
  then show ?case
    using Suc bestStep_found [of "foldl (bestStep nodes al cap used cc) (None, NInf) [0..<j]" j
        used nodes al cap cc]
    by simp
qed

lemma findBest_exists:
  assumes "\<forall>i<length nodes. rankable (score (nodes ! i))"
    and "i < length nodes" and "\<not> used ! i"
  shows "\<exists>b. findBest nodes al cap used cc = Some b"
  using foldl_bestStep_found [OF assms(1), of "length nodes" al cap used cc] assms(2,3)
  by (auto simp: findBest_def)

lemma finite_unusedIdx [simp]: "finite (unusedIdx N used)"
  by (simp add: unusedIdx_def)

lemma unusedIdx_update:
  assumes "length used = N" and "b < N"
  shows "unusedIdx N (used[b := True]) = unusedIdx N used - {b}"
  using assms by (auto simp: unusedIdx_def nth_list_update)

lemma rerankSteps_subset:
  "rerankSteps nodes al cap m used out cc = Inr res \<Longrightarrow> set res \<subseteq> set out \<union> set nodes"
proof (induction m arbitrary: used out cc)
  case 0
  then show ?case by auto
next
  case (Suc m)
  then obtain b where b: "findBest nodes al cap used cc = Some b"
    by (cases "findBest nodes al cap used cc") simp_all
  then have "b < length nodes"
    by (simp add: findBest_Some)
  moreover have "set res \<subseteq> set (out @ [nodes ! b]) \<union> set nodes"
    using Suc.prems b by (intro Suc.IH [of "used[b := True]"]) (simp add: Let_def)
  ultimately show ?case
    by auto
qed

lemma rerankSteps_permutes:
  assumes "\<forall>i<length nodes. rankable (score (nodes ! i))"
    and "length used = length nodes"
    and "card (unusedIdx (length nodes) used) = m"
  shows "\<exists>res. rerankSteps nodes al cap m used out cc = Inr res \<and>
           mset res = mset out + image_mset ((!) nodes) (mset_set (unusedIdx (length nodes) used))"
  using assms(2,3)
proof (induction m arbitrary: used out cc)
  case 0
  then have "unusedIdx (length nodes) used = {}"
    by simp
  then show ?case
    by simp
next
  case (Suc m)
  let ?N = "length nodes"
  let ?S = "unusedIdx ?N used"
  have "?S \<noteq> {}"
    using Suc.prems(2) by auto
  then obtain i where "i < ?N" "\<not> used ! i"
    by (auto simp: unusedIdx_def)
  then obtain b where b: "findBest nodes al cap used cc = Some b"
    using findBest_exists [OF assms(1)] by blast
  then have bN: "b < ?N" and bU: "\<not> used ! b"
    by (simp_all add: findBest_Some)
  then have bS: "b \<in> ?S"
    by (simp add: unusedIdx_def)
  let ?used = "used[b := True]"
  have S': "unusedIdx ?N ?used = ?S - {b}"
    using Suc.prems(1) bN by (rule unusedIdx_update)
  have "card (unusedIdx ?N ?used) = m"
    using Suc.prems(2) bS by (simp add: S')
  moreover have "length ?used = ?N"
    using Suc.prems(1) by simp
  ultimately obtain res where
    res: "rerankSteps nodes al cap m ?used (out @ [nodes ! b])
            (bumpCats cc (e_categories (event (nodes ! b)))) = Inr res"
    and m: "mset res = mset (out @ [nodes ! b])
              + image_mset ((!) nodes) (mset_set (unusedIdx ?N ?used))"
    using Suc.IH [of ?used "out @ [nodes ! b]" "bumpCats cc (e_categories (event (nodes ! b)))"]
    by blast
  have "mset_set ?S = add_mset b (mset_set (?S - {b}))"
    using bS by (simp add: mset_set.remove)
  then have "mset res = mset out + image_mset ((!) nodes) (mset_set ?S)"
    using m by (simp add: S')
  moreover have "rerankSteps nodes al cap (Suc m) used out cc = Inr res"
    using b res by (simp add: Let_def)
  ultimately show ?case
    by blast
qed

lemma unusedIdx_start: "unusedIdx N (replicate N False) = {..<N}"
  by (auto simp: unusedIdx_def)

lemma image_mset_nth_upt: "image_mset ((!) xs) (mset_set {..<length xs}) = mset xs"
proof -
  have "mset_set {..<length xs} = mset [0..<length xs]"
    by (simp add: lessThan_atLeast0)
  then have "image_mset ((!) xs) (mset_set {..<length xs}) = mset (map ((!) xs) [0..<length xs])"
    by simp
  then show ?thesis
    by (simp add: map_nth)
qed

lemma rerank_mset:
  assumes "\<forall>n\<in>set nodes. rankable (score n)"
  shows "\<exists>out. rerankWithCategoryDiversity nodes al cap = Inr out \<and> mset out = mset nodes"
proof -
  let ?N = "length nodes"
  have r: "\<forall>i<?N. rankable (score (nodes ! i))"
    using assms by simp
  have "card (unusedIdx ?N (replicate ?N False)) = ?N"
    by (simp add: unusedIdx_start)
  then obtain out where
    out: "rerankSteps nodes al cap ?N (replicate ?N False) [] Map.empty = Inr out"
    and m: "mset out = mset [] + image_mset ((!) nodes)
              (mset_set (unusedIdx ?N (replicate ?N False)))"
    using rerankSteps_permutes [OF r, of "replicate ?N False" ?N al cap "[]" Map.empty]
    by auto
  have "mset out = mset nodes"
    using m by (simp add: unusedIdx_start image_mset_nth_upt)
  then show ?thesis
    using out by (simp add: rerankWithCategoryDiversity_def Let_def)
qed

text \<open>
  Where every score is a number the inner loop can compare with its start value
  \<open>-Infinity\<close>, that is, any score but \<open>NaN\<close> and \<open>-Infinity\<close>,
  \<open>rerankWithCategoryDiversity\<close> returns a list with the same multiset of nodes, hence
  the same length and the same set of event identifiers. The scorer produces such scores
  from a popularity that is not \<open>NaN\<close> (\<open>combined_finite\<close>).
\<close>

lemma rerank_permutes_rankable:
  assumes "\<forall>n\<in>set nodes. score n \<noteq> NaN \<and> score n \<noteq> NInf"
  shows "\<exists>out. rerankWithCategoryDiversity nodes al cap = Inr out \<and>
           mset out = mset nodes \<and> length out = length nodes \<and>
           n_id ` set out = n_id ` set nodes"
proof -
  have "\<forall>n\<in>set nodes. rankable (score n)"
    using assms by (simp add: rankable_def)
  then obtain out where out: "rerankWithCategoryDiversity nodes al cap = Inr out"
    and ms: "mset out = mset nodes"
    using rerank_mset by blast
  have "length out = length nodes" "set out = set nodes"
    using ms by (metis size_mset, metis set_mset_mset)
  then show ?thesis
    using out ms by simp
qed

text \<open>
  On a node whose score is \<open>NaN\<close> no candidate beats the start value, the best index
  stays \<open>-1\<close> and the source throws.
\<close>

lemma rerank_NaN_score_throws:
  "rerankWithCategoryDiversity nanNodes al cap = Inl TypeError"
  by (simp add: rerankWithCategoryDiversity_def nanNodes_def findBest_def bestStep_def
      jssub_def jsgt_def Let_def)

lemma rerank_permutes_rankedNodes:
  "\<exists>out. rerankWithCategoryDiversity rankedNodes 0.08 (Fin 3) = Inr out \<and>
     mset out = mset rankedNodes \<and> length out = length rankedNodes \<and>
     n_id ` set out = n_id ` set rankedNodes"
  by (rule rerank_permutes_rankable) (simp add: rankedNodes_def)

section \<open>The heap keeps scored candidates only\<close>

lemma mset_heapSwap:
  "i < length h \<Longrightarrow> j < length h \<Longrightarrow> mset (heapSwap h i j) = mset h"
  using mset_swap [of j h i] by (simp add: heapSwap_def Let_def)

lemma mset_heapSiftUp: "i < length h \<Longrightarrow> mset (heapSiftUp h i) = mset h"
proof (induction h i rule: heapSiftUp.induct)
  case (1 h i)
  show ?case
  proof (cases "0 < i \<and> heapLess (h ! i) (h ! ((i - 1) div 2))")
    case True
    let ?p = "(i - 1) div 2"
    have p: "?p < length h"
      using "1.prems" by simp
    then have "mset (heapSiftUp (heapSwap h i ?p) ?p) = mset (heapSwap h i ?p)"
      using True "1.IH" [of ?p] by (simp add: length_heapSwap)
    then show ?thesis
      using True p "1.prems" by (subst heapSiftUp.simps) (simp add: mset_heapSwap Let_def)
  next
    case False
    then show ?thesis
      by (subst heapSiftUp.simps) auto
  qed
qed

lemma mset_heapSiftDown: "mset (heapSiftDown h i) = mset h"
proof (induction h i rule: heapSiftDown.induct)
  case (1 h i)
  let ?s = "smallestOf h i"
  show ?case
  proof (cases "?s = i")
    case True
    then show ?thesis
      by (subst heapSiftDown.simps) simp
  next
    case False
    then have s: "i < ?s" "?s < length h"
      using smallestOf_cases [of h i] by auto
    have "mset (heapSiftDown (heapSwap h i ?s) ?s) = mset (heapSwap h i ?s)"
      using False "1.IH" [of ?s] by simp
    then show ?thesis
      using False s by (subst heapSiftDown.simps) (simp add: mset_heapSwap Let_def)
  qed
qed

lemma mset_heapPush: "mset (heapPush h nd) = add_mset nd (mset h)"
  by (simp add: heapPush_def Let_def mset_heapSiftUp)

lemma mset_heapReplaceRoot:
  "h \<noteq> [] \<Longrightarrow> mset (heapReplaceRoot h nd) = add_mset nd (mset h - {#h ! 0#})"
  by (simp add: heapReplaceRoot_def mset_heapSiftDown mset_update)

lemma set_heapReplaceRoot: "set (heapReplaceRoot h nd) \<subseteq> insert nd (set h)"
proof -
  have "set (heapReplaceRoot h nd) = set (h[0 := nd])"
    unfolding heapReplaceRoot_def by (metis mset_heapSiftDown set_mset_mset)
  then show ?thesis
    using set_update_subset_insert [of h 0 nd] by simp
qed

lemma set_offer: "set (offer k h nd) \<subseteq> insert nd (set h)"
proof -
  have "set (heapPush h nd) = insert nd (set h)"
    by (metis mset_heapPush set_mset_mset set_mset_add_mset_insert)
  then show ?thesis
    using set_heapReplaceRoot [of h nd] by (auto simp: offer_def Let_def)
qed

lemma scoreAll_foldl: "scoreAll sc k h es = foldl (offer k) h (List.map_filter sc es)"
  by (induction es arbitrary: h) (simp_all add: List.map_filter_simps split: option.split)

lemma set_foldl_offer: "set (foldl (offer k) h nds) \<subseteq> set h \<union> set nds"
proof (induction nds arbitrary: h)
  case Nil
  then show ?case by simp
next
  case (Cons nd nds)
  then show ?case
    using set_offer [of k h nd] by fastforce
qed

lemma mset_insertNode: "mset (insertNode cmp x ys) = add_mset x (mset ys)"
  by (induction ys) simp_all

lemma mset_sortNodes: "mset (sortNodes cmp xs) = mset xs"
  unfolding sortNodes_def by (induction xs) (simp_all add: mset_insertNode)

lemma set_sortNodes: "set (sortNodes cmp xs) = set xs"
  by (metis mset_sortNodes set_mset_mset)

lemma length_sortNodes: "length (sortNodes cmp xs) = length xs"
  by (metis mset_sortNodes size_mset)

lemma candidate_not_attended:
  assumes "nd \<in> set (candidates cfg user events eventSimilarity)"
  shows "e_id (event nd) = Some (n_id nd) \<and> n_id nd \<noteq> [] \<and>
         n_id nd \<notin> set (u_attendedEvents user)"
proof -
  obtain e where "scoreEvent cfg user events eventSimilarity e = Some nd"
    using assms by (auto simp: candidates_def List.map_filter_def)
  then show ?thesis
    by (auto simp: scoreEvent_def attended_def split: option.splits if_splits)
qed

lemma rerank_subset:
  "rerankWithCategoryDiversity nodes al cap = Inr res \<Longrightarrow> set res \<subseteq> set nodes"
  using rerankSteps_subset [of nodes al cap "length nodes" "replicate (length nodes) False" "[]"
      Map.empty res]
  by (simp add: rerankWithCategoryDiversity_def Let_def)

lemma getRecommendedEvents_cases:
  "getRecommendedEvents lc cfg user events eventSimilarity limit =
     (let l = (case limit of None \<Rightarrow> Fin 5 | Some l \<Rightarrow> l);
          heap = scoreAll (scoreEvent cfg user events eventSimilarity) (kOf l events) [] events;
          nodes = sortNodes (compareNodes lc) heap
      in if events = [] \<or> jsle l (Fin 0) \<or> kOf l events = 0 \<or> heap = [] then Inr []
         else if enabled (cfg_diversity cfg) \<and> 1 < length nodes
         then (case rerankWithCategoryDiversity nodes (alpha (cfg_diversity cfg))
                     (perCategoryCap (cfg_diversity cfg)) of
                 Inl err \<Rightarrow> Inl err
               | Inr ns \<Rightarrow> Inr (map event ns))
         else Inr (map event nodes))"
  unfolding getRecommendedEvents_def Let_def by simp

lemma recommended_nodes:
  assumes "getRecommendedEvents lc cfg user events eventSimilarity limit = Inr out"
  shows "\<exists>ns. out = map event ns \<and> set ns \<subseteq> set (candidates cfg user events eventSimilarity)"
proof -
  define l where "l = (case limit of None \<Rightarrow> Fin 5 | Some l \<Rightarrow> l)"
  define heap where
    "heap = scoreAll (scoreEvent cfg user events eventSimilarity) (kOf l events) [] events"
  define nodes where "nodes = sortNodes (compareNodes lc) heap"
  have heap: "set heap \<subseteq> set (candidates cfg user events eventSimilarity)"
    using set_foldl_offer [of "kOf l events" "[]"]
    by (simp add: heap_def scoreAll_foldl candidates_def)
  note unf = getRecommendedEvents_cases [of lc cfg user events eventSimilarity limit,
      unfolded Let_def, folded l_def, folded heap_def, folded nodes_def]
  show ?thesis
  proof (cases "events = [] \<or> jsle l (Fin 0) \<or> kOf l events = 0 \<or> heap = []")
    case True
    then have "out = []"
      using assms unfolding unf by simp
    then show ?thesis
      by simp
  next
    case False
    show ?thesis
    proof (cases "enabled (cfg_diversity cfg) \<and> 1 < length nodes")
      case True
      then obtain ns where ns: "rerankWithCategoryDiversity nodes (alpha (cfg_diversity cfg))
          (perCategoryCap (cfg_diversity cfg)) = Inr ns" and out: "out = map event ns"
        using assms False unfolding unf by (auto split: sum.splits)
      have "set ns \<subseteq> set nodes"
        using ns by (rule rerank_subset)
      then have "set ns \<subseteq> set (candidates cfg user events eventSimilarity)"
        using heap by (simp add: nodes_def set_sortNodes)
      then show ?thesis
        using out by blast
    next
      case nodiv: False
      then have "out = map event nodes"
        using assms False unfolding unf by auto
      moreover have "set nodes \<subseteq> set (candidates cfg user events eventSimilarity)"
        using heap by (simp add: nodes_def set_sortNodes)
      ultimately show ?thesis
        by blast
    qed
  qed
qed

text \<open>
  Claim C1. Every event that \<open>getRecommendedEvents\<close> returns carries an identifier, and
  that identifier is not among the user's attended events; this holds for every user,
  event list, similarity index, limit, configuration and collation.
\<close>

theorem attended_events_excluded:
  assumes "getRecommendedEvents lc cfg user events eventSimilarity limit = Inr out"
  shows "\<forall>e\<in>set out. \<exists>i. e_id e = Some i \<and> i \<notin> set (u_attendedEvents user)"
proof -
  obtain ns where "out = map event ns"
    and "set ns \<subseteq> set (candidates cfg user events eventSimilarity)"
    using recommended_nodes [OF assms] by blast
  then show ?thesis
    using candidate_not_attended [of _ cfg user events eventSimilarity] by auto
qed

section \<open>A run on the sample data\<close>

lemma sample_user_facts:
  "hasPrefs sampleUser" "hasHistory sampleUser" "\<not> hasGeo sampleUser"
  "\<not> coldStart sampleUser" "attended sampleUser = [''e3'']" "prefs sampleUser = [''music'']"
  "active sampleUser = \<lparr> a_pref = True, a_sim = True, a_geo = False, a_pop = True,
     a_cold = False \<rparr>"
  "weightSum CONFIG sampleUser = 4 / 5"
  by (simp_all add: hasPrefs_def hasHistory_def hasGeo_def coldStart_def attended_def
      prefs_def active_def sampleUser_def weightSum_def activeWeightSum_def CONFIG_def Let_def)

lemma CONFIG_weights:
  "w_pref (cfg_weights CONFIG) = 7 / 20" "w_sim (cfg_weights CONFIG) = 3 / 10"
  "w_geo (cfg_weights CONFIG) = 1 / 5" "w_pop (cfg_weights CONFIG) = 3 / 20"
  "w_cold (cfg_weights CONFIG) = 1 / 10"
  by (simp_all add: CONFIG_def)

lemma sample_combined:
  "combined CONFIG sampleUser sampleEvents sampleSimilarity event1 ''e1'' = Fin (97 / 160)"
  "combined CONFIG sampleUser sampleEvents sampleSimilarity event2 ''e2'' = Fin (15 / 32)"
  by (simp_all add: combined_def weightedSum_def prefTerm_def simTerm_def geoTerm_def
      popTerm_def coldTerm_def sample_user_facts prefScore_def simScore_def sample_simCount
      jaccard_def clampPopularity_def jsmin_def jsmax_def CONFIG_weights event1_def event2_def)

lemma sample_scoreEvent:
  "scoreEvent CONFIG sampleUser sampleEvents sampleSimilarity (Some event1) = Some node1"
  "scoreEvent CONFIG sampleUser sampleEvents sampleSimilarity (Some event2) = Some node2"
  "scoreEvent CONFIG sampleUser sampleEvents sampleSimilarity (Some event3) = None"
proof -
  have ids: "e_id event1 = Some ''e1''" "e_id event2 = Some ''e2''" "e_id event3 = Some ''e3''"
    by (simp_all add: event1_def event2_def event3_def)
  have pops: "clampPopularity (e_popularity event1) = Fin 0.9"
    "clampPopularity (e_popularity event2) = Fin 0.5"
    by (simp_all add: event1_def event2_def clampPopularity_def jsmin_def jsmax_def)
  have cut: "\<not> cutOff CONFIG sampleUser ev" for ev
    by (simp add: cutOff_def sample_user_facts)
  have dist: "distanceKm sampleUser ev = PInf" for ev
    by (simp add: distanceKm_def sample_user_facts)
  show "scoreEvent CONFIG sampleUser sampleEvents sampleSimilarity (Some event1) = Some node1"
    "scoreEvent CONFIG sampleUser sampleEvents sampleSimilarity (Some event2) = Some node2"
    "scoreEvent CONFIG sampleUser sampleEvents sampleSimilarity (Some event3) = None"
    by (simp_all add: scoreEvent_def ids pops cut dist sample_combined sample_user_facts
        node1_def node2_def)
qed

lemma sample_heap:
  "scoreAll (scoreEvent CONFIG sampleUser sampleEvents sampleSimilarity) 3 [] sampleEvents
     = [node2, node1]"
proof -
  have less: "heapLess node2 node1"
    by (simp add: heapLess_def node1_def node2_def jsneq_def)
  have "heapPush [] node1 = [node1]"
    by (simp add: heapPush_def heapSiftUp.simps)
  moreover have "heapPush [node1] node2 = [node2, node1]"
    using less by (simp add: heapPush_def heapSiftUp.simps [of _ "Suc 0"] heapSiftUp.simps [of _ 0]
        heapSwap_def Let_def)
  ultimately have "scoreAll sc 3 [] [Some event1, Some event2, Some event3] = [node2, node1]"
    if "sc (Some event1) = Some node1" "sc (Some event2) = Some node2" "sc (Some event3) = None"
    for sc
    using that by (simp add: offer_def)
  from this [OF sample_scoreEvent] show ?thesis
    by (simp add: sampleEvents_def)
qed

lemma sample_sorted: "sortNodes (compareNodes lc) [node2, node1] = [node1, node2]"
  by (simp add: sortNodes_def compareNodes_def node1_def node2_def jsneq_def jssub_def jsgt_def)

lemma sample_rerank:
  "rerankWithCategoryDiversity [node1, node2] (alpha (cfg_diversity CONFIG))
     (perCategoryCap (cfg_diversity CONFIG)) = Inr [node1, node2]"
  by (simp add: rerankWithCategoryDiversity_def findBest_def bestStep_def penaltyFor_def
      countOf_def CONFIG_def node1_def node2_def event1_def event2_def jssub_def jsgt_def
      jsge_def jsle_def Let_def upt_rec)

lemma sample_run:
  "getRecommendedEvents lc CONFIG sampleUser sampleEvents sampleSimilarity (Some (Fin 5))
     = Inr [event1, event2]"
proof -
  have k: "kOf (Fin 5) sampleEvents = 3"
    by (simp add: kOf_def bitOrZero_def truncToZero_def sampleEvents_def)
  have ev: "event node1 = event1" "event node2 = event2"
    by (simp_all add: node1_def node2_def)
  show ?thesis
    unfolding getRecommendedEvents_cases Let_def
    by (simp add: k sample_heap sample_sorted sample_rerank ev jsle_def)
       (simp add: sampleEvents_def)
qed

theorem attended_events_excluded_witness:
  "getRecommendedEvents (\<lambda>a b. 0) CONFIG sampleUser sampleEvents sampleSimilarity (Some (Fin 5))
     = Inr [event1, event2] \<and>
   (\<exists>i. e_id event1 = Some i \<and> i \<notin> set (u_attendedEvents sampleUser)) \<and>
   (\<exists>i. e_id event2 = Some i \<and> i \<notin> set (u_attendedEvents sampleUser))"
  using attended_events_excluded [OF sample_run [of "\<lambda>a b. 0"]] sample_run [of "\<lambda>a b. 0"]
  by simp

section \<open>Length of the result\<close>

lemma scoreEvent_eligible:
  "scoreEvent cfg user events eventSimilarity e \<noteq> None \<longleftrightarrow> eligible cfg user e"
  by (auto simp: scoreEvent_def eligible_def attended_def split: option.splits)

lemma length_candidates:
  "length (candidates cfg user events eventSimilarity) = eligibleCandidateCount cfg user events"
proof -
  have "(\<lambda>e. scoreEvent cfg user events eventSimilarity e \<noteq> None) = eligible cfg user"
    by (rule ext) (rule scoreEvent_eligible)
  then show ?thesis
    by (simp add: candidates_def List.map_filter_def eligibleCandidateCount_def)
qed

lemma length_heapPush: "length (heapPush h nd) = Suc (length h)"
  by (metis mset_heapPush size_mset size_add_mset)

lemma length_heapReplaceRoot: "length (heapReplaceRoot h nd) = length h"
proof -
  have "mset (heapReplaceRoot h nd) = mset (h[0 := nd])"
    by (simp add: heapReplaceRoot_def mset_heapSiftDown)
  then have "length (heapReplaceRoot h nd) = length (h[0 := nd])"
    by (metis size_mset)
  then show ?thesis
    by simp
qed

lemma length_offer:
  "length (offer k h nd) = (if length h < k then Suc (length h) else length h)"
  by (simp add: offer_def Let_def length_heapPush length_heapReplaceRoot)

lemma length_foldl_offer:
  "length h \<le> k \<Longrightarrow> length (foldl (offer k) h nds) = min k (length h + length nds)"
proof (induction nds arbitrary: h)
  case Nil
  then show ?case by simp
next
  case (Cons nd nds)
  have "length (offer k h nd) \<le> k"
    using Cons.prems by (simp add: length_offer)
  then have "length (foldl (offer k) (offer k h nd) nds)
      = min k (length (offer k h nd) + length nds)"
    by (rule Cons.IH)
  then show ?case
    using Cons.prems by (auto simp: length_offer)
qed

lemma candidate_score_finite:
  assumes "nd \<in> set (candidates cfg user events eventSimilarity)"
    and "\<forall>e\<in>set events. popularityNotNaN e" and "distanceDecayKm cfg \<noteq> 0"
  shows "isFinite (score nd)"
proof -
  obtain e where e: "e \<in> set events" "scoreEvent cfg user events eventSimilarity e = Some nd"
    using assms(1) by (auto simp: candidates_def List.map_filter_def)
  then obtain ev i where ev: "e = Some ev" "e_id ev = Some i"
    and nd: "score nd = combined cfg user events eventSimilarity ev i"
    by (auto simp: scoreEvent_def split: option.splits if_splits)
  have "e_popularity ev \<noteq> Some NaN"
    using assms(2) e(1) ev(1) by (auto simp: popularityNotNaN_def)
  then show ?thesis
    unfolding nd using assms(3) by (rule combined_finite)
qed

lemma isFinite_rankable: "isFinite a \<Longrightarrow> rankable a"
  by (cases a) (simp_all add: rankable_def)

lemma kOf_small:
  assumes "0 \<le> x" and "x < 2 ^ 31"
  shows "kOf (Fin x) events = min (nat \<lfloor>x\<rfloor>) (length events)"
proof -
  have "bitOrZero (Fin x) = \<lfloor>x\<rfloor>" "0 \<le> \<lfloor>x\<rfloor>"
    using assms by (simp_all add: bitOrZero_small)
  then show ?thesis
    by (simp add: kOf_def)
qed

lemma eligibleCandidateCount_le: "eligibleCandidateCount cfg user events \<le> length events"
  by (simp add: eligibleCandidateCount_def)

text \<open>
  Claim C2, amended. For a limit \<open>0 \<le> x < 2^31\<close>, events whose popularity is not \<open>NaN\<close>
  and a decay constant other than \<open>0\<close>, \<open>getRecommendedEvents\<close> returns a list, and its
  length is the smaller of the limit, truncated to an integer, and the number of eligible
  candidates.
\<close>

theorem output_length:
  assumes x: "0 \<le> x" "x < 2 ^ 31"
    and pop: "\<forall>e\<in>set events. popularityNotNaN e"
    and d0: "distanceDecayKm cfg \<noteq> 0"
  shows "\<exists>out. getRecommendedEvents lc cfg user events eventSimilarity (Some (Fin x)) = Inr out \<and>
           length out = min (nat \<lfloor>x\<rfloor>) (eligibleCandidateCount cfg user events)"
proof -
  let ?c = "eligibleCandidateCount cfg user events"
  let ?cands = "candidates cfg user events eventSimilarity"
  define heap where
    "heap = scoreAll (scoreEvent cfg user events eventSimilarity) (kOf (Fin x) events) [] events"
  define nodes where "nodes = sortNodes (compareNodes lc) heap"
  note unf = getRecommendedEvents_cases [of lc cfg user events eventSimilarity "Some (Fin x)",
      unfolded Let_def option.case, folded heap_def, folded nodes_def]
  have k: "kOf (Fin x) events = min (nat \<lfloor>x\<rfloor>) (length events)"
    using x by (rule kOf_small)
  have "length heap = min (kOf (Fin x) events) (length ?cands)"
    using length_foldl_offer [of "[]" "kOf (Fin x) events" ?cands]
    by (simp add: heap_def scoreAll_foldl candidates_def)
  then have len: "length heap = min (nat \<lfloor>x\<rfloor>) ?c"
    using k eligibleCandidateCount_le [of cfg user events]
    by (simp add: length_candidates) arith
  have sub: "set heap \<subseteq> set ?cands"
    using set_foldl_offer [of "kOf (Fin x) events" "[]"]
    by (simp add: heap_def scoreAll_foldl candidates_def)
  show ?thesis
  proof (cases "events = [] \<or> jsle (Fin x) (Fin 0) \<or> kOf (Fin x) events = 0 \<or> heap = []")
    case True
    then have res: "getRecommendedEvents lc cfg user events eventSimilarity (Some (Fin x)) = Inr []"
      unfolding unf by simp
    have "min (nat \<lfloor>x\<rfloor>) ?c = 0"
    proof -
      consider "events = []" | "jsle (Fin x) (Fin 0)" | "kOf (Fin x) events = 0" | "heap = []"
        using True by auto
      then show ?thesis
      proof cases
        case 1
        then show ?thesis by (simp add: eligibleCandidateCount_def)
      next
        case 2
        then have "x = 0"
          using x(1) by (auto simp: jsle_def)
        then show ?thesis by simp
      next
        case 3
        then have "nat \<lfloor>x\<rfloor> = 0 \<or> length events = 0"
          using k by (simp add: min_def split: if_splits)
        then show ?thesis
          using eligibleCandidateCount_le [of cfg user events] by auto
      next
        case 4
        then show ?thesis using len by simp
      qed
    qed
    then show ?thesis
      using res by simp
  next
    case False
    have ln: "length nodes = min (nat \<lfloor>x\<rfloor>) ?c"
      using len by (simp add: nodes_def length_sortNodes)
    show ?thesis
    proof (cases "enabled (cfg_diversity cfg) \<and> 1 < length nodes")
      case True
      have "\<forall>n\<in>set nodes. rankable (score n)"
        using sub candidate_score_finite [OF _ pop d0, of _ user eventSimilarity]
        by (auto simp: nodes_def set_sortNodes intro: isFinite_rankable)
      then obtain ns where ns: "rerankWithCategoryDiversity nodes (alpha (cfg_diversity cfg))
          (perCategoryCap (cfg_diversity cfg)) = Inr ns" and ms: "mset ns = mset nodes"
        using rerank_mset by blast
      have "length ns = length nodes"
        using ms by (metis size_mset)
      moreover have "getRecommendedEvents lc cfg user events eventSimilarity (Some (Fin x))
          = Inr (map event ns)"
        using False True ns unfolding unf by simp
      ultimately show ?thesis
        using ln by simp
    next
      case nodiv: False
      then have "getRecommendedEvents lc cfg user events eventSimilarity (Some (Fin x))
          = Inr (map event nodes)"
        using False unfolding unf by auto
      then show ?thesis
        using ln by simp
    qed
  qed
qed

lemma sample_eligible: "eligibleCandidateCount CONFIG sampleUser sampleEvents = 2"
  by (simp add: eligibleCandidateCount_def sampleEvents_def eligible_def cutOff_def
      sample_user_facts event1_def event2_def event3_def)
     (simp add: sampleUser_def)

lemma sample_popularity: "\<forall>e\<in>set sampleEvents. popularityNotNaN e"
  by (simp add: sampleEvents_def popularityNotNaN_def event1_def event2_def event3_def)

text \<open>
  Claim C2, as stated, at the non-negative integer limit \<open>2^31\<close>: two candidates are
  eligible and the result is empty.
\<close>

theorem limit_2p31_length_counterexample:
  "getRecommendedEvents (\<lambda>a b. 0) CONFIG sampleUser sampleEvents sampleSimilarity
     (Some (Fin (2 ^ 31))) = Inr [] \<and>
   eligibleCandidateCount CONFIG sampleUser sampleEvents = 2 \<and>
   length ([] :: event list) \<noteq> min (2 ^ 31) (eligibleCandidateCount CONFIG sampleUser sampleEvents)"
  using limit_2p31_empty [of "\<lambda>a b. 0" CONFIG sampleUser sampleEvents sampleSimilarity]
  by (simp add: sample_eligible)

theorem output_length_witness:
  "(\<exists>out. getRecommendedEvents (\<lambda>a b. 0) CONFIG sampleUser sampleEvents sampleSimilarity
       (Some (Fin 5)) = Inr out \<and> length out = 2) \<and>
   (\<exists>out. getRecommendedEvents (\<lambda>a b. 0) CONFIG sampleUser sampleEvents sampleSimilarity
       (Some (Fin 1)) = Inr out \<and> length out = 1)"
proof -
  have d0: "distanceDecayKm CONFIG \<noteq> 0"
    by (simp add: CONFIG_def)
  have "(0::real) \<le> 5" "(5::real) < 2 ^ 31" "(0::real) \<le> 1" "(1::real) < 2 ^ 31"
    by simp_all
  then show ?thesis
    using output_length [OF _ _ sample_popularity d0, of 5 "\<lambda>a b. 0" sampleUser sampleSimilarity]
      output_length [OF _ _ sample_popularity d0, of 1 "\<lambda>a b. 0" sampleUser sampleSimilarity]
    by (simp add: sample_eligible)
qed

section \<open>The comparators are one total order\<close>

lemma jslt_rk: "a \<noteq> NaN \<Longrightarrow> b \<noteq> NaN \<Longrightarrow> jslt a b \<longleftrightarrow> rk a < rk b"
  by (cases a; cases b) simp_all

lemma jsneq_rk: "a \<noteq> NaN \<Longrightarrow> b \<noteq> NaN \<Longrightarrow> jsneq a b \<longleftrightarrow> rk a \<noteq> rk b"
  by (cases a; cases b) (simp_all add: jsneq_def)

lemma rk_jsneg_less: "a \<noteq> NaN \<Longrightarrow> b \<noteq> NaN \<Longrightarrow> rk (jsneg a) < rk (jsneg b) \<longleftrightarrow> rk b < rk a"
  by (cases a; cases b) simp_all

lemma rk_jsneg_eq: "a \<noteq> NaN \<Longrightarrow> b \<noteq> NaN \<Longrightarrow> rk (jsneg a) = rk (jsneg b) \<longleftrightarrow> rk a = rk b"
  by (cases a; cases b) simp_all

lemma lex_if:
  fixes x1 y1 :: "'a::linorder" and x2 y2 :: "'b::linorder" and x3 y3 :: "'c::linorder"
  shows "(if x1 \<noteq> y1 then x1 < y1 else if x2 \<noteq> y2 then x2 < y2
          else if x3 \<noteq> y3 then x3 < y3 else q) \<longleftrightarrow>
         (x1, x2, x3) < (y1, y2, y3) \<or> ((x1, x2, x3) = (y1, y2, y3) \<and> q)"
  by (auto simp: less_prod_def)

lemma heapLess_rank:
  assumes "okNode a" and "okNode b"
  shows "heapLess a b \<longleftrightarrow>
           rankKey a < rankKey b \<or> (rankKey a = rankKey b \<and> n_id b < n_id a)"
proof -
  have "heapLess a b \<longleftrightarrow>
      (if rk (score a) \<noteq> rk (score b) then rk (score a) < rk (score b)
       else if rk (jsneg (distance a)) \<noteq> rk (jsneg (distance b))
       then rk (jsneg (distance a)) < rk (jsneg (distance b))
       else if rk (popularity a) \<noteq> rk (popularity b)
       then rk (popularity a) < rk (popularity b)
       else n_id b < n_id a)"
    using assms
    by (simp add: heapLess_def okNode_def jslt_rk jsneq_rk jsgt_def rk_jsneg_less rk_jsneg_eq)
  then show ?thesis
    unfolding rankKey_def by (simp only: lex_if)
qed

lemma betterThan_rank:
  assumes "okNode a" and "okNode b"
  shows "betterThan a b \<longleftrightarrow>
           rankKey b < rankKey a \<or> (rankKey b = rankKey a \<and> n_id a < n_id b)"
proof -
  have "betterThan a b \<longleftrightarrow>
      (if rk (score b) \<noteq> rk (score a) then rk (score b) < rk (score a)
       else if rk (jsneg (distance b)) \<noteq> rk (jsneg (distance a))
       then rk (jsneg (distance b)) < rk (jsneg (distance a))
       else if rk (popularity b) \<noteq> rk (popularity a)
       then rk (popularity b) < rk (popularity a)
       else n_id a < n_id b)"
    using assms
    by (simp add: betterThan_def okNode_def jslt_rk jsneq_rk jsgt_def rk_jsneg_less rk_jsneg_eq)
  then show ?thesis
    unfolding rankKey_def by (simp only: lex_if)
qed

lemma betterThan_heapLess: "okNode a \<Longrightarrow> okNode b \<Longrightarrow> betterThan a b \<longleftrightarrow> heapLess b a"
  by (auto simp: betterThan_rank heapLess_rank)

lemma heapLess_irrefl: "okNode a \<Longrightarrow> \<not> heapLess a a"
  by (simp add: heapLess_rank)

lemma heapLess_trans:
  "okNode a \<Longrightarrow> okNode b \<Longrightarrow> okNode c \<Longrightarrow> heapLess a b \<Longrightarrow> heapLess b c \<Longrightarrow> heapLess a c"
  by (auto simp: heapLess_rank)

lemma heapLess_asym: "okNode a \<Longrightarrow> okNode b \<Longrightarrow> heapLess a b \<Longrightarrow> \<not> heapLess b a"
  by (auto simp: heapLess_rank)

lemma heapLess_negtrans:
  "okNode a \<Longrightarrow> okNode b \<Longrightarrow> okNode c \<Longrightarrow> \<not> heapLess a b \<Longrightarrow> \<not> heapLess b c
   \<Longrightarrow> \<not> heapLess a c"
  by (auto simp: heapLess_rank)

lemma heapLess_tie_id:
  "okNode a \<Longrightarrow> okNode b \<Longrightarrow> \<not> heapLess a b \<Longrightarrow> \<not> heapLess b a \<Longrightarrow> n_id a = n_id b"
  by (auto simp: heapLess_rank)

section \<open>The heap property\<close>

lemma par_less: "0 < i \<Longrightarrow> par i < i"
  by (simp add: par_def)

lemma par_child: "0 < m \<Longrightarrow> par m = i \<longleftrightarrow> m = 2 * i + 1 \<or> m = 2 * i + 2"
  unfolding par_def by presburger

lemma nth_heapSwap:
  assumes "i < length h" and "j < length h" and "m < length h"
  shows "heapSwap h i j ! m = (if m = j then h ! i else if m = i then h ! j else h ! m)"
  using assms by (simp add: heapSwap_def Let_def nth_list_update)

lemma okHeap_nth: "okHeap h \<Longrightarrow> i < length h \<Longrightarrow> okNode (h ! i)"
  by (simp add: okHeap_def)

lemma okHeap_mset: "mset h' = mset h \<Longrightarrow> okHeap h' = okHeap h"
proof -
  assume "mset h' = mset h"
  then have "set h' = set h"
    by (rule mset_eq_setD)
  then show ?thesis
    by (simp add: okHeap_def)
qed

lemma okHeap_heapSwap: "i < length h \<Longrightarrow> j < length h \<Longrightarrow> okHeap (heapSwap h i j) = okHeap h"
  by (rule okHeap_mset) (rule mset_heapSwap)

lemma siftUp_step:
  assumes ex: "heapExceptUp h i" and i: "0 < i" "i < length h"
    and less: "heapLess (h ! i) (h ! par i)" and ok: "okHeap h"
  shows "heapExceptUp (heapSwap h i (par i)) (par i)"
proof -
  let ?p = "par i"
  let ?h = "heapSwap h i ?p"
  have p: "?p < i" "?p < length h"
    using i par_less [of i] by simp_all
  have nth: "\<And>m. m < length h \<Longrightarrow> ?h ! m = (if m = ?p then h ! i else if m = i then h ! ?p else h ! m)"
    using i p by (simp add: nth_heapSwap)
  have okn: "\<And>m. m < length h \<Longrightarrow> okNode (h ! m)"
    using ok by (simp add: okHeap_nth)
  have one: "\<And>m. 0 < m \<Longrightarrow> m < length h \<Longrightarrow> m \<noteq> i \<Longrightarrow> \<not> heapLess (h ! m) (h ! par m)"
    using ex by (simp add: heapExceptUp_def)
  have two: "\<And>m. 0 < m \<Longrightarrow> m < length h \<Longrightarrow> par m = i \<Longrightarrow> \<not> heapLess (h ! m) (h ! ?p)"
    using ex i by (simp add: heapExceptUp_def)
  have hi: "?h ! i = h ! ?p" and hp: "?h ! ?p = h ! i"
    using i p nth [of i] nth [of ?p] by simp_all
  have ho: "\<And>m. m < length h \<Longrightarrow> m \<noteq> i \<Longrightarrow> m \<noteq> ?p \<Longrightarrow> ?h ! m = h ! m"
    using nth by simp
  have first: "\<not> heapLess (?h ! m) (?h ! par m)"
    if m: "0 < m" "m < length h" "m \<noteq> ?p" for m
  proof -
    have q: "par m < m" "par m < length h"
      using m par_less [of m] by simp_all
    show ?thesis
    proof (cases "m = i")
      case True
      have "\<not> heapLess (h ! ?p) (h ! i)"
        using less heapLess_asym [OF okn [OF i(2)] okn [OF p(2)]] by blast
      then have "\<not> heapLess (?h ! i) (?h ! ?p)"
        unfolding hi hp .
      then show ?thesis
        unfolding True .
    next
      case False
      have hm: "?h ! m = h ! m"
        using m(2) False m(3) by (rule ho)
      consider "par m = i" | "par m = ?p" | "par m \<noteq> i" "par m \<noteq> ?p"
        by blast
      then show ?thesis
      proof cases
        case 1
        have "\<not> heapLess (h ! m) (h ! ?p)"
          using m(1,2) 1 by (rule two)
        then show ?thesis
          unfolding hm 1 hi .
      next
        case 2
        have "\<not> heapLess (h ! m) (h ! par m)"
          using m(1,2) False by (rule one)
        then have "\<not> heapLess (h ! m) (h ! ?p)"
          unfolding 2 .
        then have "\<not> heapLess (h ! m) (h ! i)"
          using less heapLess_trans [OF okn [OF m(2)] okn [OF i(2)] okn [OF p(2)]] by blast
        then show ?thesis
          unfolding hm 2 hp .
      next
        case 3
        have "?h ! par m = h ! par m"
          using q(2) 3 by (rule ho)
        moreover have "\<not> heapLess (h ! m) (h ! par m)"
          using m(1,2) False by (rule one)
        ultimately show ?thesis
          unfolding hm by simp
      qed
    qed
  qed
  have second: "\<not> heapLess (?h ! m) (?h ! par ?p)"
    if m: "0 < m" "m < length h" "par m = ?p" "0 < ?p" for m
  proof -
    have pp: "par ?p < ?p"
      using m(4) by (rule par_less)
    have ppl: "par ?p < length h" and ppi: "par ?p \<noteq> i" and ppp: "par ?p \<noteq> ?p"
      using pp p by simp_all
    have hpp: "?h ! par ?p = h ! par ?p"
      using ppl ppi ppp by (rule ho)
    have pi: "?p \<noteq> i"
      using p(1) by simp
    have base: "\<not> heapLess (h ! ?p) (h ! par ?p)"
      using m(4) p(2) pi by (rule one)
    show ?thesis
    proof (cases "m = i")
      case True
      from base show ?thesis
        unfolding True hi hpp .
    next
      case False
      have "par m < m"
        using m(1) by (rule par_less)
      then have mp: "m \<noteq> ?p"
        unfolding m(3) by simp
      have hm: "?h ! m = h ! m"
        using m(2) False mp by (rule ho)
      have "\<not> heapLess (h ! m) (h ! par m)"
        using m(1,2) False by (rule one)
      then have "\<not> heapLess (h ! m) (h ! ?p)"
        unfolding m(3) .
      then have "\<not> heapLess (h ! m) (h ! par ?p)"
        using base heapLess_negtrans [OF okn [OF m(2)] okn [OF p(2)] okn [OF ppl]] by blast
      then show ?thesis
        unfolding hm hpp .
    qed
  qed
  show ?thesis
    unfolding heapExceptUp_def length_heapSwap using first second by blast
qed

lemma isHeap_heapSiftUp:
  "heapExceptUp h i \<Longrightarrow> i < length h \<Longrightarrow> okHeap h \<Longrightarrow> isHeap (heapSiftUp h i)"
proof (induction h i rule: heapSiftUp.induct)
  case (1 h i)
  show ?case
  proof (cases "0 < i")
    case False
    then have "heapSiftUp h i = h"
      by (subst heapSiftUp.simps) simp
    moreover have "isHeap h"
      using "1.prems"(1) False by (auto simp: heapExceptUp_def isHeap_def)
    ultimately show ?thesis by simp
  next
    case True
    show ?thesis
    proof (cases "heapLess (h ! i) (h ! par i)")
      case False
      then have "heapSiftUp h i = h"
        using True by (subst heapSiftUp.simps) (simp add: par_def)
      moreover have "isHeap h"
        unfolding isHeap_def
      proof (intro allI impI)
        fix m
        assume m: "0 < m \<and> m < length h"
        show "\<not> heapLess (h ! m) (h ! par m)"
        proof (cases "m = i")
          case True
          then show ?thesis using False by simp
        next
          case neq: False
          then show ?thesis
            using "1.prems"(1) m by (simp add: heapExceptUp_def)
        qed
      qed
      ultimately show ?thesis by simp
    next
      case less: True
      let ?h = "heapSwap h i (par i)"
      have p: "par i < length h"
        using par_less [OF True] "1.prems"(2) by simp
      have "heapExceptUp ?h (par i)"
        using "1.prems" True less by (intro siftUp_step)
      moreover have "okHeap ?h"
        using "1.prems" p by (simp add: okHeap_heapSwap)
      ultimately have "isHeap (heapSiftUp ?h (par i))"
        using "1.IH" [of "par i"] True less p by (simp add: par_def length_heapSwap)
      moreover have "heapSiftUp h i = heapSiftUp ?h (par i)"
        using True less by (subst heapSiftUp.simps) (simp add: par_def Let_def)
      ultimately show ?thesis by simp
    qed
  qed
qed

lemma smallestOf_unfold:
  "smallestOf h i =
     (if 2 * i + 2 < length h \<and>
         heapLess (h ! (2 * i + 2))
           (h ! (if 2 * i + 1 < length h \<and> heapLess (h ! (2 * i + 1)) (h ! i) then 2 * i + 1 else i))
      then 2 * i + 2
      else if 2 * i + 1 < length h \<and> heapLess (h ! (2 * i + 1)) (h ! i) then 2 * i + 1 else i)"
  by (simp add: smallestOf_def Let_def)

lemma smallestOf_props:
  assumes ok: "okHeap h"
  shows smallestOf_child:
    "smallestOf h i \<noteq> i \<Longrightarrow>
       par (smallestOf h i) = i \<and> i < smallestOf h i \<and> smallestOf h i < length h \<and>
       heapLess (h ! smallestOf h i) (h ! i)"
    and smallestOf_least:
    "0 < c \<Longrightarrow> c < length h \<Longrightarrow> par c = i \<Longrightarrow> \<not> heapLess (h ! c) (h ! smallestOf h i)"
proof -
  let ?l = "2 * i + 1"
  let ?r = "2 * i + 2"
  let ?c1 = "?l < length h \<and> heapLess (h ! ?l) (h ! i)"
  have okn: "\<And>m. m < length h \<Longrightarrow> okNode (h ! m)"
    using ok by (simp add: okHeap_nth)
  have pl: "par ?l = i" and pr: "par ?r = i"
    by (simp_all add: par_child)
  show "smallestOf h i \<noteq> i \<Longrightarrow>
       par (smallestOf h i) = i \<and> i < smallestOf h i \<and> smallestOf h i < length h \<and>
       heapLess (h ! smallestOf h i) (h ! i)"
  proof -
    assume ne: "smallestOf h i \<noteq> i"
    show ?thesis
    proof (cases ?c1)
      case c1: True
      show ?thesis
      proof (cases "?r < length h \<and> heapLess (h ! ?r) (h ! ?l)")
        case True
        then have s: "smallestOf h i = ?r"
          using c1 by (simp add: smallestOf_unfold)
        have "heapLess (h ! ?r) (h ! i)"
          using True c1 heapLess_trans [OF okn okn okn, of ?r ?l i] by simp
        then show ?thesis
          unfolding s using True pr by simp
      next
        case False
        then have s: "smallestOf h i = ?l"
          using c1 by (simp add: smallestOf_unfold)
        show ?thesis
          unfolding s using c1 pl by simp
      qed
    next
      case c1: False
      show ?thesis
      proof (cases "?r < length h \<and> heapLess (h ! ?r) (h ! i)")
        case True
        then have s: "smallestOf h i = ?r"
          using c1 by (simp add: smallestOf_unfold)
        show ?thesis
          unfolding s using True pr by simp
      next
        case False
        then have "smallestOf h i = i"
          using c1 by (simp add: smallestOf_unfold)
        then show ?thesis
          using ne by simp
      qed
    qed
  qed
  show "\<not> heapLess (h ! c) (h ! smallestOf h i)"
    if c: "0 < c" "c < length h" "par c = i"
  proof -
    have cc: "c = ?l \<or> c = ?r"
      using c(1,3) by (simp add: par_child)
    have il: "i < length h"
      using cc c(2) by auto
    show ?thesis
    proof (cases ?c1)
      case c1: True
      show ?thesis
      proof (cases "?r < length h \<and> heapLess (h ! ?r) (h ! ?l)")
        case True
        then have s: "smallestOf h i = ?r"
          using c1 by (simp add: smallestOf_unfold)
        have "\<not> heapLess (h ! ?l) (h ! ?r)"
          using True c1 heapLess_asym [OF okn okn, of ?r ?l] by simp
        moreover have "\<not> heapLess (h ! ?r) (h ! ?r)"
          using True okn heapLess_irrefl by simp
        ultimately show ?thesis
          unfolding s using cc by auto
      next
        case False
        then have s: "smallestOf h i = ?l"
          using c1 by (simp add: smallestOf_unfold)
        have "\<not> heapLess (h ! ?l) (h ! ?l)"
          using c1 okn heapLess_irrefl by simp
        moreover have "c = ?r \<Longrightarrow> \<not> heapLess (h ! ?r) (h ! ?l)"
          using False c(2) by simp
        ultimately show ?thesis
          unfolding s using cc by auto
      qed
    next
      case c1: False
      show ?thesis
      proof (cases "?r < length h \<and> heapLess (h ! ?r) (h ! i)")
        case True
        then have s: "smallestOf h i = ?r"
          using c1 by (simp add: smallestOf_unfold)
        have "\<not> heapLess (h ! ?r) (h ! ?r)"
          using True okn heapLess_irrefl by simp
        moreover have "\<not> heapLess (h ! ?l) (h ! ?r)" if "c = ?l"
        proof
          assume "heapLess (h ! ?l) (h ! ?r)"
          moreover have l: "?l < length h"
            using that c(2) by simp
          ultimately have "heapLess (h ! ?l) (h ! i)"
            using True heapLess_trans [OF okn okn okn, of ?l ?r i] il by simp
          then show False
            using c1 l by simp
        qed
        ultimately show ?thesis
          unfolding s using cc by auto
      next
        case False
        then have s: "smallestOf h i = i"
          using c1 by (simp add: smallestOf_unfold)
        show ?thesis
          unfolding s using cc c(2) c1 False by auto
      qed
    qed
  qed
qed

lemma siftDown_step:
  assumes ex: "heapExceptDown h i" and ok: "okHeap h" and ne: "smallestOf h i \<noteq> i"
  shows "heapExceptDown (heapSwap h i (smallestOf h i)) (smallestOf h i)"
proof -
  let ?s = "smallestOf h i"
  let ?h = "heapSwap h i ?s"
  have s: "par ?s = i" "i < ?s" "?s < length h" "heapLess (h ! ?s) (h ! i)"
    using smallestOf_child [OF ok ne] by simp_all
  have i: "i < length h"
    using s(2,3) by simp
  have nth: "\<And>m. m < length h \<Longrightarrow> ?h ! m = (if m = ?s then h ! i else if m = i then h ! ?s else h ! m)"
    using i s(3) by (simp add: nth_heapSwap)
  have hi: "?h ! i = h ! ?s" and hs: "?h ! ?s = h ! i"
    using i s(2,3) nth [of i] nth [of ?s] by simp_all
  have ho: "\<And>m. m < length h \<Longrightarrow> m \<noteq> i \<Longrightarrow> m \<noteq> ?s \<Longrightarrow> ?h ! m = h ! m"
    using nth by simp
  have okn: "\<And>m. m < length h \<Longrightarrow> okNode (h ! m)"
    using ok by (simp add: okHeap_nth)
  have one: "\<And>m. 0 < m \<Longrightarrow> m < length h \<Longrightarrow> par m \<noteq> i \<Longrightarrow> \<not> heapLess (h ! m) (h ! par m)"
    using ex by (simp add: heapExceptDown_def)
  have two: "\<And>m. 0 < m \<Longrightarrow> m < length h \<Longrightarrow> par m = i \<Longrightarrow> 0 < i
      \<Longrightarrow> \<not> heapLess (h ! m) (h ! par i)"
    using ex by (simp add: heapExceptDown_def)
  have least: "\<And>c. 0 < c \<Longrightarrow> c < length h \<Longrightarrow> par c = i \<Longrightarrow> \<not> heapLess (h ! c) (h ! ?s)"
    using ok by (rule smallestOf_least)
  have first: "\<not> heapLess (?h ! m) (?h ! par m)"
    if m: "0 < m" "m < length h" "par m \<noteq> ?s" for m
  proof -
    have q: "par m < m" "par m < length h"
      using m par_less [of m] by simp_all
    consider "m = ?s" | "m = i" | "m \<noteq> ?s" "m \<noteq> i"
      by blast
    then show ?thesis
    proof cases
      case 1
      have "\<not> heapLess (h ! i) (h ! ?s)"
        using s(4) heapLess_asym [OF okn [OF s(3)] okn [OF i]] by blast
      then have "\<not> heapLess (?h ! ?s) (?h ! i)"
        unfolding hi hs .
      then have "\<not> heapLess (?h ! ?s) (?h ! par ?s)"
        unfolding s(1) .
      then show ?thesis
        unfolding 1 .
    next
      case 2
      have i0: "0 < i"
        using m(1) 2 by simp
      have pi: "par i < i"
        using i0 by (rule par_less)
      have "par i < length h" "par i \<noteq> i" "par i \<noteq> ?s"
        using pi i s(2) by simp_all
      then have hpi: "?h ! par i = h ! par i"
        by (rule ho)
      have "\<not> heapLess (h ! ?s) (h ! par i)"
        using two [of ?s] s i0 by simp
      then have "\<not> heapLess (?h ! i) (?h ! par i)"
        unfolding hi hpi .
      then show ?thesis
        unfolding 2 .
    next
      case 3
      have hm: "?h ! m = h ! m"
        using m(2) 3(2) 3(1) by (rule ho)
      show ?thesis
      proof (cases "par m = i")
        case True
        have "\<not> heapLess (h ! m) (h ! ?s)"
          using m(1,2) True by (rule least)
        then show ?thesis
          unfolding hm True hi .
      next
        case False
        have "?h ! par m = h ! par m"
          using q(2) False m(3) by (rule ho)
        moreover have "\<not> heapLess (h ! m) (h ! par m)"
          using m(1,2) False by (rule one)
        ultimately show ?thesis
          unfolding hm by simp
      qed
    qed
  qed
  have second: "\<not> heapLess (?h ! m) (?h ! par ?s)"
    if m: "0 < m" "m < length h" "par m = ?s" for m
  proof -
    have "par m < m"
      using m(1) by (rule par_less)
    then have sm: "?s < m"
      unfolding m(3) .
    then have "m \<noteq> i" "m \<noteq> ?s"
      using s(2) by simp_all
    then have hm: "?h ! m = h ! m"
      using m(2) ho by simp
    have "par m \<noteq> i"
      unfolding m(3) using s(2) by simp
    then have "\<not> heapLess (h ! m) (h ! par m)"
      using m(1,2) one by simp
    then have "\<not> heapLess (h ! m) (h ! ?s)"
      unfolding m(3) .
    then show ?thesis
      unfolding hm s(1) hi .
  qed
  show ?thesis
    unfolding heapExceptDown_def length_heapSwap using first second by blast
qed

lemma isHeap_heapSiftDown:
  "heapExceptDown h i \<Longrightarrow> okHeap h \<Longrightarrow> isHeap (heapSiftDown h i)"
proof (induction h i rule: heapSiftDown.induct)
  case (1 h i)
  let ?s = "smallestOf h i"
  show ?case
  proof (cases "?s = i")
    case True
    then have "heapSiftDown h i = h"
      by (subst heapSiftDown.simps) simp
    moreover have "isHeap h"
      unfolding isHeap_def
    proof (intro allI impI)
      fix m
      assume m: "0 < m \<and> m < length h"
      show "\<not> heapLess (h ! m) (h ! par m)"
      proof (cases "par m = i")
        case eq: True
        have "\<not> heapLess (h ! m) (h ! ?s)"
          using "1.prems"(2) m eq smallestOf_least by simp
        then show ?thesis
          unfolding True eq .
      next
        case False
        then show ?thesis
          using "1.prems"(1) m by (simp add: heapExceptDown_def)
      qed
    qed
    ultimately show ?thesis by simp
  next
    case False
    let ?h = "heapSwap h i ?s"
    have s: "i < ?s" "?s < length h"
      using smallestOf_child [OF "1.prems"(2) False] by simp_all
    have "heapExceptDown ?h ?s"
      using "1.prems" False by (rule siftDown_step)
    moreover have "okHeap ?h"
      using "1.prems"(2) s by (simp add: okHeap_heapSwap)
    ultimately have "isHeap (heapSiftDown ?h ?s)"
      using "1.IH" [of ?s] False by simp
    moreover have "heapSiftDown h i = heapSiftDown ?h ?s"
      using False by (subst heapSiftDown.simps) (simp add: Let_def)
    ultimately show ?thesis by simp
  qed
qed

lemma isHeap_heapPush:
  assumes "isHeap h" and "okHeap h" and "okNode nd"
  shows "isHeap (heapPush h nd)"
proof -
  let ?h = "h @ [nd]"
  have ok: "okHeap ?h"
    using assms(2,3) by (simp add: okHeap_def)
  have "heapExceptUp ?h (length h)"
    unfolding heapExceptUp_def
  proof (intro conjI allI impI)
    fix m
    assume m: "0 < m \<and> m < length ?h \<and> m \<noteq> length h"
    then have ml: "m < length h"
      by simp
    then have "par m < length h"
      using par_less [of m] m by simp
    then show "\<not> heapLess (?h ! m) (?h ! par m)"
      using assms(1) m ml by (simp add: isHeap_def nth_append)
  next
    fix m
    assume m: "0 < m \<and> m < length ?h \<and> par m = length h \<and> 0 < length h"
    then have "par m < m"
      using par_less [of m] by simp
    then have False
      using m by simp
    then show "\<not> heapLess (?h ! m) (?h ! par (length h))"
      by simp
  qed
  then have "isHeap (heapSiftUp ?h (length h))"
    using ok by (intro isHeap_heapSiftUp) simp_all
  then show ?thesis
    by (simp add: heapPush_def Let_def)
qed

lemma isHeap_heapReplaceRoot:
  assumes "isHeap h" and "okHeap h" and "okNode nd" and "h \<noteq> []"
  shows "isHeap (heapReplaceRoot h nd)"
proof -
  let ?h = "h[0 := nd]"
  have ok: "okHeap ?h"
    unfolding okHeap_def using assms(2,3) set_update_subset_insert [of h 0 nd]
    by (auto simp: okHeap_def)
  have "heapExceptDown ?h 0"
    unfolding heapExceptDown_def
  proof (intro conjI allI impI)
    fix m
    assume m: "0 < m \<and> m < length ?h \<and> par m \<noteq> 0"
    then show "\<not> heapLess (?h ! m) (?h ! par m)"
      using assms(1) by (simp add: isHeap_def)
  next
    fix m
    assume "0 < m \<and> m < length ?h \<and> par m = 0 \<and> (0::nat) < 0"
    then show "\<not> heapLess (?h ! m) (?h ! par 0)"
      by simp
  qed
  then show ?thesis
    unfolding heapReplaceRoot_def using ok by (rule isHeap_heapSiftDown)
qed

lemma heap_root_least:
  assumes "isHeap h" and "okHeap h"
  shows "i < length h \<Longrightarrow> \<not> heapLess (h ! i) (h ! 0)"
proof (induction i rule: less_induct)
  case (less i)
  show ?case
  proof (cases "i = 0")
    case True
    then show ?thesis
      using less.prems assms(2) by (simp add: heapLess_irrefl okHeap_nth)
  next
    case False
    then have p: "par i < i"
      by (simp add: par_less)
    then have pl: "par i < length h"
      using less.prems by simp
    have "\<not> heapLess (h ! i) (h ! par i)"
      using assms(1) False less.prems by (simp add: isHeap_def)
    moreover have "\<not> heapLess (h ! par i) (h ! 0)"
      using p pl by (rule less.IH)
    moreover have "0 < length h"
      using less.prems by (cases h) simp_all
    ultimately show ?thesis
      using heapLess_negtrans [OF okHeap_nth okHeap_nth okHeap_nth, OF assms(2) less.prems
          assms(2) pl assms(2)]
      by blast
  qed
qed

section \<open>Full sort and truncation\<close>

lemma mset_insertRanked: "mset (insertRanked x ys) = add_mset x (mset ys)"
  by (induction ys) simp_all

lemma mset_sortRanked: "mset (sortRanked xs) = mset xs"
  unfolding sortRanked_def by (induction xs) (simp_all add: mset_insertRanked)

lemma set_insertRanked: "set (insertRanked x ys) = insert x (set ys)"
  by (metis mset_insertRanked set_mset_mset set_mset_add_mset_insert)

lemma sorted_insertRanked:
  assumes "okNode x" and "\<forall>y\<in>set ys. okNode y"
    and "sorted_wrt (\<lambda>a b. \<not> betterThan b a) ys"
  shows "sorted_wrt (\<lambda>a b. \<not> betterThan b a) (insertRanked x ys)"
  using assms(2,3)
proof (induction ys)
  case Nil
  then show ?case by simp
next
  case (Cons y ys)
  have oky: "okNode y" and okys: "\<forall>z\<in>set ys. okNode z"
    using Cons.prems(1) by simp_all
  have yz: "\<forall>z\<in>set ys. \<not> betterThan z y" and sys: "sorted_wrt (\<lambda>a b. \<not> betterThan b a) ys"
    using Cons.prems(2) by simp_all
  show ?case
  proof (cases "betterThan x y")
    case True
    have "\<not> betterThan y x"
      using True assms(1) oky by (simp add: betterThan_heapLess heapLess_asym)
    moreover have "\<not> betterThan z x" if z: "z \<in> set ys" for z
    proof
      assume "betterThan z x"
      then have "heapLess x z" "heapLess y x"
        using True assms(1) oky okys z by (simp_all add: betterThan_heapLess)
      then have "heapLess y z"
        using heapLess_trans [of y x z] assms(1) oky okys z by simp
      then show False
        using yz z oky okys by (simp add: betterThan_heapLess)
    qed
    ultimately show ?thesis
      using True Cons.prems(2) by simp
  next
    case False
    have "sorted_wrt (\<lambda>a b. \<not> betterThan b a) (insertRanked x ys)"
      using okys sys by (rule Cons.IH)
    then show ?thesis
      using False yz by (simp add: set_insertRanked)
  qed
qed

lemma sorted_sortRanked:
  "\<forall>x\<in>set xs. okNode x \<Longrightarrow> sorted_wrt (\<lambda>a b. \<not> betterThan b a) (sortRanked xs)"
proof (induction xs)
  case Nil
  then show ?case by (simp add: sortRanked_def)
next
  case (Cons x xs)
  have "sorted_wrt (\<lambda>a b. \<not> betterThan b a) (sortRanked xs)"
    using Cons by simp
  moreover have "\<forall>y\<in>set (sortRanked xs). okNode y"
    using Cons.prems by (metis list.set_intros(2) mset_sortRanked set_mset_mset)
  moreover have "okNode x"
    using Cons.prems by simp
  ultimately have "sorted_wrt (\<lambda>a b. \<not> betterThan b a) (insertRanked x (sortRanked xs))"
    by (intro sorted_insertRanked)
  then show ?case
    by (simp add: sortRanked_def)
qed

lemma topSel_fullSortTruncate:
  assumes "\<forall>x\<in>set xs. okNode x"
  shows "topSel k (mset xs) (mset (fullSortTruncate k xs))"
proof -
  let ?s = "sortRanked xs"
  have split: "mset xs = mset (take k ?s) + mset (drop k ?s)"
    by (metis append_take_drop_id mset_append mset_sortRanked)
  have "sorted_wrt (\<lambda>a b. \<not> betterThan b a) (take k ?s @ drop k ?s)"
    using assms by (simp add: sorted_sortRanked)
  then have cross: "\<forall>x\<in>set (take k ?s). \<forall>y\<in>set (drop k ?s). \<not> betterThan y x"
    unfolding sorted_wrt_append by simp
  have "size (mset (take k ?s)) = min k (size (mset xs))"
    by (metis length_take mset_sortRanked size_mset min.commute)
  moreover have "mset (take k ?s) \<subseteq># mset xs"
    unfolding split by simp
  moreover have "mset xs - mset (take k ?s) = mset (drop k ?s)"
    unfolding split by simp
  ultimately show ?thesis
    using cross by (simp add: topSel_def fullSortTruncate_def)
qed

section \<open>The scan keeps the best\<close>

lemma subset_size_eq:
  fixes A B :: "'a multiset"
  assumes "A \<subseteq># B" and "size A = size B"
  shows "A = B"
proof -
  obtain C where C: "B = A + C"
    using assms(1) by (auto simp: mset_subset_eq_exists_conv)
  then have "size C = 0"
    using assms(2) by simp
  then show ?thesis
    using C by simp
qed

lemma root_least_mset:
  assumes "isHeap h" and "okHeap h" and "x \<in># mset h"
  shows "\<not> heapLess x (h ! 0)"
proof -
  obtain i where "i < length h" "h ! i = x"
    using assms(3) by (auto simp: in_set_conv_nth)
  then show ?thesis
    using heap_root_least [OF assms(1,2), of i] by simp
qed

lemma offer_topSel:
  assumes k: "0 < k" and okM: "\<forall>n\<in>#M. okNode n" and oknd: "okNode nd"
    and heap: "isHeap h" and sel: "topSel k M (mset h)"
  shows "isHeap (offer k h nd) \<and> topSel k (add_mset nd M) (mset (offer k h nd))"
proof -
  have sub: "mset h \<subseteq># M" and size: "length h = min k (size M)"
    and cross: "\<And>x y. x \<in># mset h \<Longrightarrow> y \<in># M - mset h \<Longrightarrow> \<not> betterThan y x"
    using sel by (simp_all add: topSel_def)
  have cnt: "\<And>a. count (mset h) a \<le> count M a"
    using sub by (rule mset_subset_eq_count)
  have okh: "okHeap h"
    unfolding okHeap_def
  proof
    fix n
    assume "n \<in> set h"
    then have "n \<in># mset h"
      by simp
    then have "n \<in># M"
      using sub by (rule mset_subset_eqD [rotated])
    then show "okNode n"
      using okM by simp
  qed
  show ?thesis
  proof (cases "length h < k")
    case True
    then have "size (mset h) = size M"
      using size by simp
    then have M: "M = mset h"
      using subset_size_eq [OF sub] by simp
    have off: "offer k h nd = heapPush h nd"
      using True by (simp add: offer_def)
    have "topSel k (add_mset nd M) (mset (heapPush h nd))"
      using True by (simp add: topSel_def mset_heapPush M)
    moreover have "isHeap (heapPush h nd)"
      using heap okh oknd by (rule isHeap_heapPush)
    ultimately show ?thesis
      by (simp add: off)
  next
    case False
    then have len: "length h = k" and big: "k \<le> size M"
      using size by simp_all
    then have ne: "h \<noteq> []"
      using k by auto
    let ?r = "h ! 0"
    have r: "?r \<in># mset h"
      using ne by simp
    have okr: "okNode ?r"
      using okh ne by (simp add: okHeap_nth)
    have okx: "\<And>x. x \<in># mset h \<Longrightarrow> okNode x"
      using okh by (simp add: okHeap_def)
    have oky: "\<And>y. y \<in># M - mset h \<Longrightarrow> okNode y"
      using okM in_diffD by fastforce
    have least: "\<And>x. x \<in># mset h \<Longrightarrow> \<not> heapLess x ?r"
      using heap okh by (rule root_least_mset)
    show ?thesis
    proof (cases "betterThan nd ?r")
      case better: True
      then have rn: "heapLess ?r nd"
        using oknd okr by (simp add: betterThan_heapLess)
      have off: "offer k h nd = heapReplaceRoot h nd"
        using False better by (simp add: offer_def Let_def)
      let ?H = "add_mset nd (mset h - {#?r#})"
      have H: "mset (heapReplaceRoot h nd) = ?H"
        using ne by (rule mset_heapReplaceRoot)
      have rest: "add_mset nd M - ?H = add_mset ?r (M - mset h)"
      proof -
        have "add_mset nd M - ?H = M - (mset h - {#?r#})"
          by simp
        also have "\<dots> = add_mset ?r (M - mset h)"
        proof (rule multiset_eqI)
          fix a
          have "0 < count (mset h) ?r"
            using r by simp
          then show "count (M - (mset h - {#?r#})) a = count (add_mset ?r (M - mset h)) a"
            using cnt [of a] by (cases "a = ?r") auto
        qed
        finally show ?thesis .
      qed
      have "?H \<subseteq># add_mset nd M"
      proof (rule mset_subset_eqI)
        fix a
        show "count ?H a \<le> count (add_mset nd M) a"
          using cnt [of a] by auto
      qed
      moreover have "size ?H = min k (size (add_mset nd M))"
        using r len big k by (simp add: size_Diff_singleton)
      moreover have "\<not> betterThan y x" if x: "x \<in># ?H" and y: "y \<in># add_mset ?r (M - mset h)"
        for x y
      proof -
        have yc: "y = ?r \<or> y \<in># M - mset h"
          using y by auto
        have xc: "x = nd \<or> x \<in># mset h"
          using x by (auto dest: in_diffD)
        have oky': "okNode y"
          using yc okr oky by auto
        have okx': "okNode x"
          using xc oknd okx by auto
        have "\<not> heapLess x y"
        proof (cases "x = nd")
          case True
          show ?thesis
          proof (cases "y = ?r")
            case True
            then show ?thesis
              using rn \<open>x = nd\<close> heapLess_asym [OF okr oknd] by simp
          next
            case False
            then have "\<not> betterThan y ?r"
              using yc r cross by simp
            then have nry: "\<not> heapLess ?r y"
              using oky' okr by (simp add: betterThan_heapLess)
            show ?thesis
            proof
              assume "heapLess x y"
              then have "heapLess ?r y"
                using rn True heapLess_trans [OF okr oknd oky'] by simp
              then show False
                using nry by simp
            qed
          qed
        next
          case False
          then have xh: "x \<in># mset h"
            using xc by simp
          show ?thesis
          proof (cases "y = ?r")
            case True
            then show ?thesis
              using least [OF xh] by simp
          next
            case False
            then have "\<not> betterThan y x"
              using yc xh cross by simp
            then show ?thesis
              using okx' oky' by (simp add: betterThan_heapLess)
          qed
        qed
        then show ?thesis
          using okx' oky' by (simp add: betterThan_heapLess)
      qed
      ultimately have "topSel k (add_mset nd M) ?H"
        unfolding topSel_def rest by blast
      moreover have "isHeap (heapReplaceRoot h nd)"
        using heap okh oknd ne by (rule isHeap_heapReplaceRoot)
      ultimately show ?thesis
        by (simp add: off H)
    next
      case worse: False
      then have nrn: "\<not> heapLess ?r nd"
        using oknd okr by (simp add: betterThan_heapLess)
      have off: "offer k h nd = h"
        using False worse by (simp add: offer_def Let_def)
      have rest: "add_mset nd M - mset h = add_mset nd (M - mset h)"
      proof (rule multiset_eqI)
        fix a
        show "count (add_mset nd M - mset h) a = count (add_mset nd (M - mset h)) a"
          using cnt [of a] by auto
      qed
      have "\<not> betterThan y x" if x: "x \<in># mset h" and y: "y \<in># add_mset nd (M - mset h)"
        for x y
      proof (cases "y = nd")
        case True
        have "\<not> heapLess x nd"
          using least [OF x] nrn heapLess_negtrans [OF okx [OF x] okr oknd] by blast
        then show ?thesis
          using True oknd okx [OF x] by (simp add: betterThan_heapLess)
      next
        case False
        then show ?thesis
          using x y cross by simp
      qed
      moreover have "mset h \<subseteq># add_mset nd M"
      proof (rule mset_subset_eqI)
        fix a
        show "count (mset h) a \<le> count (add_mset nd M) a"
          using cnt [of a] by auto
      qed
      moreover have "size (mset h) = min k (size (add_mset nd M))"
        using len big by simp
      ultimately have "topSel k (add_mset nd M) (mset h)"
        unfolding topSel_def rest by blast
      then show ?thesis
        using heap by (simp add: off)
    qed
  qed
qed

lemma foldl_offer_topSel:
  assumes "0 < k" and "\<forall>n\<in>set nds. okNode n" and "\<forall>n\<in>#M. okNode n"
    and "isHeap h" and "topSel k M (mset h)"
  shows "topSel k (M + mset nds) (mset (foldl (offer k) h nds))"
  using assms(2-)
proof (induction nds arbitrary: M h)
  case Nil
  then show ?case by simp
next
  case (Cons nd nds)
  have nd: "okNode nd" and rest: "\<forall>n\<in>set nds. okNode n"
    using Cons.prems(1) by simp_all
  have step: "isHeap (offer k h nd) \<and> topSel k (add_mset nd M) (mset (offer k h nd))"
    using assms(1) Cons.prems(2) nd Cons.prems(3,4) by (rule offer_topSel)
  have "\<forall>n\<in>#add_mset nd M. okNode n"
    using nd Cons.prems(2) by simp
  then have "topSel k (add_mset nd M + mset nds) (mset (foldl (offer k) (offer k h nd) nds))"
    using rest step by (intro Cons.IH) simp_all
  then show ?case
    by simp
qed

lemma topSel_ids_subset:
  assumes ok: "\<forall>n\<in>#M. okNode n" and A: "topSel k M A" and B: "topSel k M B"
  shows "n_id ` set_mset A \<subseteq> n_id ` set_mset B"
proof
  fix i
  assume "i \<in> n_id ` set_mset A"
  then obtain x where x: "x \<in># A" "i = n_id x"
    by blast
  have subA: "A \<subseteq># M" and subB: "B \<subseteq># M" and sz: "size A = size B"
    using A B by (simp_all add: topSel_def)
  show "i \<in> n_id ` set_mset B"
  proof (cases "x \<in># B")
    case True
    then show ?thesis
      using x(2) by blast
  next
    case False
    have xM: "x \<in># M"
      using subA x(1) by (rule mset_subset_eqD)
    have xrest: "x \<in># M - B"
      using xM False by (simp add: in_diff_count not_in_iff)
    have "\<not> B \<subseteq># A"
    proof
      assume "B \<subseteq># A"
      then have "B = A"
        using sz by (intro subset_size_eq) simp_all
      then show False
        using x(1) False by simp
    qed
    then obtain y where y: "count A y < count B y"
      by (auto simp: subseteq_mset_def not_le)
    then have yB: "y \<in># B"
      by (metis count_greater_zero_iff gr_implies_not0 neq0_conv)
    have "count B y \<le> count M y"
      using subB by (rule mset_subset_eq_count)
    then have yrest: "y \<in># M - A"
      using y by (simp add: in_diff_count)
    have okx: "okNode x" and oky: "okNode y"
      using ok xM yB subB by (auto dest: mset_subset_eqD)
    have "\<not> betterThan y x"
      using A x(1) yrest by (simp add: topSel_def)
    moreover have "\<not> betterThan x y"
      using B yB xrest by (simp add: topSel_def)
    ultimately have "n_id x = n_id y"
      using okx oky heapLess_tie_id [of x y] by (simp add: betterThan_heapLess)
    then show ?thesis
      using x(2) yB by auto
  qed
qed

lemma topSel_ids:
  assumes "\<forall>n\<in>#M. okNode n" and "topSel k M A" and "topSel k M B"
  shows "n_id ` set_mset A = n_id ` set_mset B"
  using topSel_ids_subset [OF assms(1,2,3)] topSel_ids_subset [OF assms(1,3,2)] by blast

lemma candidate_okNode:
  assumes "nd \<in> set (candidates cfg user events eventSimilarity)"
    and "\<forall>e\<in>set events. popularityNotNaN e" and "distanceDecayKm cfg \<noteq> 0"
  shows "okNode nd"
proof -
  have s: "isFinite (score nd)"
    using assms by (rule candidate_score_finite)
  obtain e where e: "e \<in> set events" "scoreEvent cfg user events eventSimilarity e = Some nd"
    using assms(1) by (auto simp: candidates_def List.map_filter_def)
  then obtain ev where ev: "e = Some ev"
    and d: "distance nd = (if isFinite (distanceKm user ev) then distanceKm user ev else PInf)"
    and p: "popularity nd = clampPopularity (e_popularity ev)"
    by (auto simp: scoreEvent_def split: option.splits if_splits)
  have "e_popularity ev \<noteq> Some NaN"
    using assms(2) e(1) ev by (auto simp: popularityNotNaN_def)
  then have "popularity nd \<noteq> NaN"
    by (simp add: p clampPopularity_NaN_iff)
  moreover have "distance nd \<noteq> NaN"
    unfolding d by (cases "distanceKm user ev") simp_all
  moreover have "score nd \<noteq> NaN"
    using s by (cases "score nd") simp_all
  ultimately show ?thesis
    by (simp add: okNode_def)
qed

lemma heap_scan_ids:
  assumes "0 < k" and "\<forall>e\<in>set events. popularityNotNaN e" and "distanceDecayKm cfg \<noteq> 0"
  shows "n_id ` set (scoreAll (scoreEvent cfg user events eventSimilarity) k [] events)
         = n_id ` set (fullSortTruncate k (candidates cfg user events eventSimilarity))"
proof -
  let ?cands = "candidates cfg user events eventSimilarity"
  let ?heap = "scoreAll (scoreEvent cfg user events eventSimilarity) k [] events"
  have ok: "\<forall>n\<in>set ?cands. okNode n"
    using candidate_okNode [OF _ assms(2,3)] by blast
  have "isHeap []" "topSel k {#} (mset [])"
    by (simp_all add: isHeap_def topSel_def)
  then have "topSel k ({#} + mset ?cands) (mset (foldl (offer k) [] ?cands))"
    using assms(1) ok by (intro foldl_offer_topSel) simp_all
  then have heap: "topSel k (mset ?cands) (mset ?heap)"
    by (simp add: scoreAll_foldl candidates_def)
  have full: "topSel k (mset ?cands) (mset (fullSortTruncate k ?cands))"
    using ok by (rule topSel_fullSortTruncate)
  have "\<forall>n\<in>#mset ?cands. okNode n"
    using ok by simp
  then have "n_id ` set_mset (mset ?heap) = n_id ` set_mset (mset (fullSortTruncate k ?cands))"
    using heap full by (rule topSel_ids)
  then show ?thesis
    by simp
qed

lemma recommended_ids:
  assumes x: "0 \<le> x" and pop: "\<forall>e\<in>set events. popularityNotNaN e"
    and d0: "distanceDecayKm cfg \<noteq> 0"
  shows "\<exists>out. getRecommendedEvents lc cfg user events eventSimilarity (Some (Fin x)) = Inr out \<and>
           e_id ` set out
             = Some ` n_id ` set (fullSortTruncate (kOf (Fin x) events)
                 (candidates cfg user events eventSimilarity))"
proof -
  let ?cands = "candidates cfg user events eventSimilarity"
  let ?k = "kOf (Fin x) events"
  define heap where
    "heap = scoreAll (scoreEvent cfg user events eventSimilarity) ?k [] events"
  define nodes where "nodes = sortNodes (compareNodes lc) heap"
  note unf = getRecommendedEvents_cases [of lc cfg user events eventSimilarity "Some (Fin x)",
      unfolded Let_def option.case, folded heap_def, folded nodes_def]
  have ids: "n_id ` set heap = n_id ` set (fullSortTruncate ?k ?cands)" if "0 < ?k"
    unfolding heap_def using that pop d0 by (rule heap_scan_ids)
  have sub: "set heap \<subseteq> set ?cands"
    using set_foldl_offer [of ?k "[]"] by (simp add: heap_def scoreAll_foldl candidates_def)
  have ev: "e_id ` event ` set heap = Some ` n_id ` set heap"
  proof -
    have "e_id (event nd) = Some (n_id nd)" if "nd \<in> set heap" for nd
      using that sub candidate_not_attended [of nd cfg user events eventSimilarity] by blast
    then show ?thesis
      by (auto simp: image_iff)
  qed
  show ?thesis
  proof (cases "events = [] \<or> jsle (Fin x) (Fin 0) \<or> ?k = 0 \<or> heap = []")
    case True
    then have res: "getRecommendedEvents lc cfg user events eventSimilarity (Some (Fin x)) = Inr []"
      unfolding unf by simp
    have "set (fullSortTruncate ?k ?cands) = {}"
    proof (cases "?k = 0")
      case k0: True
      then show ?thesis
        by (simp add: fullSortTruncate_def)
    next
      case kpos: False
      have "\<not> jsle (Fin x) (Fin 0)"
      proof
        assume "jsle (Fin x) (Fin 0)"
        then have "x = 0"
          using x by (auto simp: jsle_def)
        then have "?k = 0"
          by (simp add: kOf_def bitOrZero_def truncToZero_def)
        then show False
          using kpos by simp
      qed
      moreover have "events \<noteq> []"
        using kpos by (auto simp: kOf_def)
      ultimately have "heap = []"
        using True kpos by simp
      then have "n_id ` set (fullSortTruncate ?k ?cands) = {}"
        using ids kpos by simp
      then show ?thesis
        by simp
    qed
    then show ?thesis
      using res by simp
  next
    case False
    then have kpos: "0 < ?k"
      by simp
    have "\<exists>ns. getRecommendedEvents lc cfg user events eventSimilarity (Some (Fin x))
            = Inr (map event ns) \<and> set ns = set heap"
    proof (cases "enabled (cfg_diversity cfg) \<and> 1 < length nodes")
      case True
      have "\<forall>n\<in>set nodes. rankable (score n)"
        using sub candidate_score_finite [OF _ pop d0, of _ user eventSimilarity]
        by (auto simp: nodes_def set_sortNodes intro: isFinite_rankable)
      then obtain ns where ns: "rerankWithCategoryDiversity nodes (alpha (cfg_diversity cfg))
          (perCategoryCap (cfg_diversity cfg)) = Inr ns" and ms: "mset ns = mset nodes"
        using rerank_mset by blast
      have "set ns = set heap"
        using ms by (metis mset_eq_setD nodes_def set_sortNodes)
      moreover have "getRecommendedEvents lc cfg user events eventSimilarity (Some (Fin x))
          = Inr (map event ns)"
        using False True ns unfolding unf by simp
      ultimately show ?thesis
        by blast
    next
      case nodiv: False
      then have "getRecommendedEvents lc cfg user events eventSimilarity (Some (Fin x))
          = Inr (map event nodes)"
        using False unfolding unf by auto
      moreover have "set nodes = set heap"
        by (simp add: nodes_def set_sortNodes)
      ultimately show ?thesis
        by blast
    qed
    then obtain ns where res: "getRecommendedEvents lc cfg user events eventSimilarity
        (Some (Fin x)) = Inr (map event ns)" and ns: "set ns = set heap"
      by blast
    have "e_id ` set (map event ns) = Some ` n_id ` set (fullSortTruncate ?k ?cands)"
      using ev ids [OF kpos] ns by (simp add: image_image)
    then show ?thesis
      using res by blast
  qed
qed

text \<open>
  For events whose popularity is not \<open>NaN\<close> (so that the order is total) and a decay
  constant other than \<open>0\<close>, the identifiers the bounded heap scan keeps are the
  identifiers of the first \<open>k\<close> candidates of the full sort, for every \<open>k \<ge> 1\<close> (the
  source runs the scan with such \<open>k\<close> only). For a limit that is not negative, the
  identifiers of the events \<open>getRecommendedEvents\<close> returns are these as well, with the
  \<open>k\<close> the source computes from the limit.
\<close>

lemma heap_scan_full_sort_without_NaN:
  assumes "\<forall>e\<in>set events. popularityNotNaN e" and "distanceDecayKm cfg \<noteq> 0"
  shows "(0 < k \<longrightarrow>
            n_id ` set (scoreAll (scoreEvent cfg user events eventSimilarity) k [] events)
              = n_id ` set (fullSortTruncate k (candidates cfg user events eventSimilarity))) \<and>
         (0 \<le> x \<longrightarrow>
            (\<exists>out. getRecommendedEvents lc cfg user events eventSimilarity (Some (Fin x)) = Inr out \<and>
               e_id ` set out
                 = Some ` n_id ` set (fullSortTruncate (kOf (Fin x) events)
                     (candidates cfg user events eventSimilarity))))"
  using assms heap_scan_ids [of k events cfg user eventSimilarity]
    recommended_ids [of x events cfg lc user eventSimilarity]
  by blast

lemma sample_candidates:
  "candidates CONFIG sampleUser sampleEvents sampleSimilarity = [node1, node2]"
proof -
  have "List.map_filter sc [Some event1, Some event2, Some event3] = [node1, node2]"
    if "sc (Some event1) = Some node1" "sc (Some event2) = Some node2" "sc (Some event3) = None"
    for sc
    using that by (simp add: List.map_filter_simps)
  from this [OF sample_scoreEvent] show ?thesis
    by (simp add: candidates_def sampleEvents_def)
qed

lemma sample_fullSortTruncate:
  "fullSortTruncate (Suc 0) (candidates CONFIG sampleUser sampleEvents sampleSimilarity) = [node1]"
  by (simp add: sample_candidates fullSortTruncate_def sortRanked_def betterThan_def
      node1_def node2_def jsneq_def jsgt_def)

lemma heap_scan_full_sort_sample:
  "n_id ` set (scoreAll (scoreEvent CONFIG sampleUser sampleEvents sampleSimilarity) 1 []
      sampleEvents) = {''e1''} \<and>
   (\<exists>out. getRecommendedEvents (\<lambda>a b. 0) CONFIG sampleUser sampleEvents sampleSimilarity
      (Some (Fin 1)) = Inr out \<and> e_id ` set out = {Some ''e1''})"
proof -
  have d0: "distanceDecayKm CONFIG \<noteq> 0"
    by (simp add: CONFIG_def)
  have k: "kOf (Fin 1) sampleEvents = Suc 0"
    by (simp add: kOf_def bitOrZero_def truncToZero_def sampleEvents_def)
  have id1: "n_id node1 = ''e1''"
    by (simp add: node1_def)
  show ?thesis
    using heap_scan_full_sort_without_NaN [OF sample_popularity d0, of 1 sampleUser sampleSimilarity 1
        "\<lambda>a b. 0"]
    by (simp add: k sample_fullSortTruncate id1)
qed

section \<open>A popularity that is NaN, followed through the engine\<close>

lemma nan_scoreEvent:
  "scoreEvent CONFIG sampleUser evs sampleSimilarity (Some nanEvent) = Some nanNode"
  "scoreEvent CONFIG sampleUser evs sampleSimilarity (Some event1) = Some node1"
proof -
  have c: "clampPopularity (Some NaN) = NaN"
    by (simp add: clampPopularity_def jsmin_def jsmax_def)
  have pop: "e_popularity nanEvent = Some NaN" and ident: "e_id nanEvent = Some ''e9''"
    "e_id event1 = Some ''e1''"
    by (simp_all add: nanEvent_def event1_def)
  have comb: "combined CONFIG sampleUser evs sampleSimilarity nanEvent ''e9'' = NaN"
    by (simp add: combined_def weightedSum_def popTerm_def active_def pop c)
  have comb1: "combined CONFIG sampleUser evs sampleSimilarity event1 ''e1'' = Fin (97 / 160)"
    by (simp add: combined_def weightedSum_def prefTerm_def simTerm_def geoTerm_def
      popTerm_def coldTerm_def sample_user_facts prefScore_def simScore_def sample_simCount
      jaccard_def clampPopularity_def jsmin_def jsmax_def CONFIG_weights event1_def)
  have pop1: "clampPopularity (e_popularity event1) = Fin 0.9"
    by (simp add: event1_def clampPopularity_def jsmin_def jsmax_def)
  have cut: "\<not> cutOff CONFIG sampleUser ev" for ev
    by (simp add: cutOff_def sample_user_facts)
  have dist: "distanceKm sampleUser ev = PInf" for ev
    by (simp add: distanceKm_def sample_user_facts)
  show "scoreEvent CONFIG sampleUser evs sampleSimilarity (Some nanEvent) = Some nanNode"
    by (simp add: scoreEvent_def comb cut dist sample_user_facts pop ident c nanNode_def)
  show "scoreEvent CONFIG sampleUser evs sampleSimilarity (Some event1) = Some node1"
    by (simp add: scoreEvent_def comb1 cut dist sample_user_facts pop1 ident node1_def)
qed

lemma nan_compare:
  "\<not> heapLess node1 nanNode" "\<not> heapLess nanNode node1"
  "\<not> betterThan node1 nanNode" "\<not> betterThan nanNode node1"
  by (simp_all add: heapLess_def betterThan_def node1_def nanNode_def jsneq_def jsgt_def)

lemma nan_candidates:
  "candidates CONFIG sampleUser nanFirst sampleSimilarity = [nanNode, node1]"
  "candidates CONFIG sampleUser nanLast sampleSimilarity = [node1, nanNode]"
  by (simp_all add: candidates_def nanFirst_def nanLast_def List.map_filter_simps nan_scoreEvent)

lemma nan_heap1:
  "scoreAll (scoreEvent CONFIG sampleUser nanFirst sampleSimilarity) (Suc 0) [] nanFirst = [nanNode]"
  "scoreAll (scoreEvent CONFIG sampleUser nanLast sampleSimilarity) (Suc 0) [] nanLast = [node1]"
  by (simp_all add: nanFirst_def nanLast_def nan_scoreEvent offer_def heapPush_def
      heapSiftUp.simps nan_compare)

lemma nan_heap2:
  "scoreAll (scoreEvent CONFIG sampleUser nanFirst sampleSimilarity) 2 [] nanFirst
     = [nanNode, node1]"
  by (simp add: nanFirst_def nan_scoreEvent offer_def heapPush_def
      heapSiftUp.simps [of _ "Suc 0"] heapSiftUp.simps [of _ 0] nan_compare)

lemma nan_sorted: "sortNodes (compareNodes lc) [nanNode, node1] = [nanNode, node1]"
  by (simp add: sortNodes_def compareNodes_def node1_def nanNode_def jsneq_def jssub_def jsgt_def)

lemma nan_rerank:
  "rerankWithCategoryDiversity [nanNode, node1] al cap = Inl TypeError"
  by (simp add: rerankWithCategoryDiversity_def findBest_def bestStep_def
      node1_def nanNode_def jssub_def jsgt_def Let_def upt_rec)

lemma nan_full: "fullSortTruncate (Suc 0) [nanNode, node1] = [node1]"
  by (simp add: fullSortTruncate_def sortRanked_def nan_compare)

text \<open>
  Claim C4 fails on the code. With \<open>k = 1\<close> the scan of \<open>nanFirst\<close> keeps \<open>e9\<close>, the
  first candidate: its score is \<open>NaN\<close>, so \<open>betterThan\<close> is false for every later
  candidate and the root is never replaced. The full sort of the same candidates,
  truncated to one, keeps \<open>e1\<close>. On \<open>nanLast\<close>, which holds the same candidates in the
  other order, the scan keeps \<open>e1\<close>: what the scan keeps depends on the order of the
  events, which the first \<open>k\<close> of a sort by a total order does not. The results of
  \<open>getRecommendedEvents\<close> differ in the same way.
\<close>

theorem heap_scan_differs_on_NaN:
  "n_id ` set (scoreAll (scoreEvent CONFIG sampleUser nanFirst sampleSimilarity) 1 [] nanFirst)
     = {''e9''} \<and>
   n_id ` set (fullSortTruncate 1 (candidates CONFIG sampleUser nanFirst sampleSimilarity))
     = {''e1''} \<and>
   n_id ` set (scoreAll (scoreEvent CONFIG sampleUser nanLast sampleSimilarity) 1 [] nanLast)
     = {''e1''} \<and>
   mset (candidates CONFIG sampleUser nanLast sampleSimilarity)
     = mset (candidates CONFIG sampleUser nanFirst sampleSimilarity) \<and>
   getRecommendedEvents lc CONFIG sampleUser nanFirst sampleSimilarity (Some (Fin 1))
     = Inr [nanEvent] \<and>
   getRecommendedEvents lc CONFIG sampleUser nanLast sampleSimilarity (Some (Fin 1))
     = Inr [event1]"
proof -
  have k: "kOf (Fin 1) nanFirst = Suc 0" "kOf (Fin 1) nanLast = Suc 0"
    by (simp_all add: kOf_def bitOrZero_def truncToZero_def nanFirst_def nanLast_def)
  have ne: "nanFirst \<noteq> []" "nanLast \<noteq> []"
    by (simp_all add: nanFirst_def nanLast_def)
  have ids: "n_id nanNode = ''e9''" "n_id node1 = ''e1''" "event nanNode = nanEvent"
    "event node1 = event1"
    by (simp_all add: nanNode_def node1_def)
  have 1: "getRecommendedEvents lc CONFIG sampleUser nanFirst sampleSimilarity (Some (Fin 1))
     = Inr [nanEvent]"
    unfolding getRecommendedEvents_cases Let_def
    by (simp add: k nan_heap1 ne ids jsle_def sortNodes_def)
  have 2: "getRecommendedEvents lc CONFIG sampleUser nanLast sampleSimilarity (Some (Fin 1))
     = Inr [event1]"
    unfolding getRecommendedEvents_cases Let_def
    by (simp add: k nan_heap1 ne ids jsle_def sortNodes_def)
  show ?thesis
    using 1 2 by (simp add: nan_heap1 nan_candidates nan_full ids)
qed

text \<open>
  Claim C6 fails on the code. The scorer builds the nodes \<open>nanNode\<close> and \<open>node1\<close> from
  \<open>nanFirst\<close>. On this list \<open>rerankWithCategoryDiversity\<close> places \<open>node1\<close> and then finds
  no index, since a value \<open>NaN\<close> is not greater than \<open>-Infinity\<close>: the best index stays
  \<open>-1\<close> and the source throws a TypeError, where the claim promises a list of the same
  two nodes. It throws on the list of \<open>nanNode\<close> alone as well, and the error leaves
  \<open>getRecommendedEvents\<close>.
\<close>

theorem rerank_throws_on_NaN_score:
  "candidates CONFIG sampleUser nanFirst sampleSimilarity = [nanNode, node1] \<and>
   rerankWithCategoryDiversity [nanNode, node1] al cap = Inl TypeError \<and>
   rerankWithCategoryDiversity [nanNode] al cap = Inl TypeError \<and>
   getRecommendedEvents lc CONFIG sampleUser nanFirst sampleSimilarity (Some (Fin 5))
     = Inl TypeError"
proof -
  have k: "kOf (Fin 5) nanFirst = 2"
    by (simp add: kOf_def bitOrZero_def truncToZero_def nanFirst_def)
  have ne: "nanFirst \<noteq> []"
    by (simp add: nanFirst_def)
  have en: "enabled (cfg_diversity CONFIG)"
    by (simp add: CONFIG_def)
  have run: "getRecommendedEvents lc CONFIG sampleUser nanFirst sampleSimilarity (Some (Fin 5))
     = Inl TypeError"
    unfolding getRecommendedEvents_cases Let_def
    by (simp add: k nan_heap2 nan_sorted nan_rerank ne en jsle_def)
  have one: "rerankWithCategoryDiversity [nanNode] al cap = Inl TypeError"
    by (simp add: rerankWithCategoryDiversity_def nanNode_def findBest_def bestStep_def
      jssub_def jsgt_def Let_def)
  show ?thesis
    using run one by (simp add: nan_candidates nan_rerank)
qed

end
